theory Spec2Isabelle
  imports Main "HOL-Library.Sublist"
begin

section \<open>JavaScript values used by the server\<close>

text \<open>
  The server is JavaScript. Three of its idioms decide the behaviour that is verified
  below and are therefore written out:
  \<^item> truthiness: \<open>null\<close>, \<open>undefined\<close> and the empty string are falsy, every array
    and every non-empty string is truthy;
  \<^item> a template literal renders \<open>undefined\<close> as the text \<open>undefined\<close>;
  \<^item> \<open>const jobs = {}\<close> is a plain object, so \<open>jobs[key]\<close> finds the members that
    every plain object inherits from \<open>Object.prototype\<close> when \<open>key\<close> is not an own
    property.
\<close>

text \<open>A string-valued field that may hold \<open>null\<close> or \<open>undefined\<close>.\<close>

definition truthy :: "string option \<Rightarrow> bool" where
  "truthy v = (case v of None \<Rightarrow> False | Some str \<Rightarrow> str \<noteq> [])"

definition template :: "string option \<Rightarrow> string" where
  "template v = (case v of None \<Rightarrow> ''undefined'' | Some str \<Rightarrow> str)"

text \<open>A reference-document descriptor: a title and the locator of its text.\<close>

record book =
  title :: string
  text_path :: string

text \<open>
  The value of \<open>selectedBooks\<close>, in a request body or in a job: whatever JSON the
  caller sent. The elements of an array are taken to be book descriptors. \<open>JObj\<close> is
  an object that is no array; its fields are not modelled, and it is taken to have none
  that bears the name of a field of a job.
\<close>

datatype jsval =
    JUndefined
  | JNull
  | JBool bool
  | JNum int
  | JStr string
  | JArr "book list"
  | JObj

fun truthy_val :: "jsval \<Rightarrow> bool" where
  "truthy_val JUndefined = False"
| "truthy_val JNull = False"
| "truthy_val (JBool b) = b"
| "truthy_val (JNum n) = (n \<noteq> 0)"
| "truthy_val (JStr str) = (str \<noteq> [])"
| "truthy_val (JArr bs) = True"
| "truthy_val JObj = True"

text \<open>
  Strings, numbers and booleans are primitive values. The server is an ES module and
  its code is strict: assigning to a property of a primitive value raises a TypeError.
\<close>

fun primitive :: "jsval \<Rightarrow> bool" where
  "primitive (JBool b) = True"
| "primitive (JNum n) = True"
| "primitive (JStr str) = True"
| "primitive _ = False"

text \<open>\<open>Array.isArray(v) && v.length > 0\<close>\<close>

fun nonEmptyArray :: "jsval \<Rightarrow> bool" where
  "nonEmptyArray (JArr bs) = (0 < length bs)"
| "nonEmptyArray _ = False"

fun elements :: "jsval \<Rightarrow> book list" where
  "elements (JArr bs) = bs"
| "elements _ = []"

section \<open>The analysis adapter: class Gemini\<close>

text \<open>
  \<open>getResponse\<close> returns an object \<open>{ response, error }\<close>. The provider is a function
  from the credential used to the outcome of \<open>generateContent\<close> with it: \<open>Inl\<close> the
  message of the rejection, \<open>Inr\<close> the text of the response. The credential pool is a
  parameter of the model; the prompt that the constructor assembles from the transcript
  and the books is data handed to the provider and plays no part in the control flow.
\<close>

record geminiResult =
  response :: "string option"
  error :: "string option"

record Gemini =
  apiKeys :: "string list"
  transcript :: "string option"
  books :: "(string \<times> string) list"
  model :: string

definition Gemini_new ::
  "string list \<Rightarrow> string option \<Rightarrow> (string \<times> string) list \<Rightarrow> string + Gemini" where
  "Gemini_new keys tr bs =
     (if length keys = 0 then Inl ''No API keys provided''
      else Inr \<lparr>apiKeys = keys, transcript = tr, books = bs, model = ''gemini-2.5-pro''\<rparr>)"

text \<open>
  The loop \<open>for (let i = 0; i < this.apiKeys.length; i++)\<close> over the keys still to be
  tried; \<open>i === this.apiKeys.length - 1\<close> holds exactly when no key is left after the
  current one. A loop that runs off its end makes the function return \<open>undefined\<close>,
  which is \<open>None\<close> here.
\<close>

fun getResponseLoop :: "(string \<Rightarrow> string + string) \<Rightarrow> string list \<Rightarrow> geminiResult option" where
  "getResponseLoop generateContent [] = None"
| "getResponseLoop generateContent (currentKey # rest) =
     (case generateContent currentKey of
        Inr txt \<Rightarrow> Some \<lparr>response = Some txt, error = None\<rparr>
      | Inl message \<Rightarrow>
          if rest = [] then Some \<lparr>response = None, error = Some (''Gemini API error: '' @ message)\<rparr>
          else getResponseLoop generateContent rest)"

definition getResponse :: "Gemini \<Rightarrow> (string \<Rightarrow> string + string) \<Rightarrow> geminiResult option" where
  "getResponse g generateContent = getResponseLoop generateContent (apiKeys g)"

section \<open>The transcription adapter: class Transcript\<close>

text \<open>
  The provider as the adapter sees it: the outcome of submitting the file, the answer
  to the \<open>k\<close>-th poll, and the outcome of fetching the text. \<open>Inl\<close> is a rejected call.
  Every call to the provider is taken to settle.
\<close>

record revDetails =
  status :: string
  failure_detail :: "string option"
  failure :: "string option"

record revClient =
  submitJobLocalFile :: "string \<Rightarrow> string + string"
  getJobDetails :: "nat \<Rightarrow> string + revDetails"
  getTranscriptText :: "string + string"

record Transcript =
  timeoutS :: int

definition Transcript_new :: "int option \<Rightarrow> Transcript" where
  "Transcript_new t = \<lparr>timeoutS = (case t of None \<Rightarrow> 900 | Some v \<Rightarrow> v)\<rparr>"

datatype transcriptError =
    Rejected string
  | Ended string string string
  | TimedOut string int

definition POLL_MS :: int where
  "POLL_MS = 7000"

text \<open>\<open>details.failure_detail || details.failure || 'unknown reason'\<close>\<close>

definition reason :: "revDetails \<Rightarrow> string" where
  "reason details =
     (if truthy (failure_detail details) then template (failure_detail details)
      else if truthy (failure details) then template (failure details)
      else ''unknown reason'')"

text \<open>
  The \<open>while (true)\<close> loop of \<open>generate\<close>: \<open>k\<close> polls have been made and \<open>elapsed\<close>
  seconds counted so far. The result carries the progress lines the loop logs (the
  elapsed seconds and the provider status of each poll).
\<close>

function pollLoop ::
  "revClient \<Rightarrow> int \<Rightarrow> string \<Rightarrow> nat \<Rightarrow> int \<Rightarrow> (int \<times> string) list \<times> (transcriptError + unit)" where
  "pollLoop client limit jobid k elapsed =
     (case getJobDetails client k of
        Inl e \<Rightarrow> ([], Inl (Rejected e))
      | Inr details \<Rightarrow>
          (let elapsed' = elapsed + POLL_MS div 1000;
               line = (elapsed', revDetails.status details)
           in if revDetails.status details = ''transcribed'' then ([line], Inr ())
              else if revDetails.status details \<in> set [''failed'', ''revoked'', ''error'']
              then ([line], Inl (Ended jobid (revDetails.status details) (reason details)))
              else if elapsed' > limit then ([line], Inl (TimedOut jobid limit))
              else (case pollLoop client limit jobid (Suc k) elapsed' of
                      (ls, r) \<Rightarrow> (line # ls, r))))"
  by pat_completeness auto
termination
  by (relation "measure (\<lambda>(client, limit, jobid, k, elapsed). nat (limit - elapsed))")
     (auto simp: POLL_MS_def)

definition generate ::
  "Transcript \<Rightarrow> revClient \<Rightarrow> string \<Rightarrow> (int \<times> string) list \<times> (transcriptError + string)" where
  "generate t client filePath =
     (case submitJobLocalFile client filePath of
        Inl e \<Rightarrow> ([], Inl (Rejected e))
      | Inr jobid \<Rightarrow>
          (case pollLoop client (timeoutS t) jobid 0 0 of
             (ls, Inl e) \<Rightarrow> (ls, Inl e)
           | (ls, Inr u) \<Rightarrow>
               (case getTranscriptText client of
                  Inl e \<Rightarrow> (ls, Inl (Rejected e))
                | Inr txt \<Rightarrow> (ls, Inr txt))))"

text \<open>
  The progress lines of the first \<open>m\<close> polls, read off the provider's answers: poll
  \<open>i\<close> (counted from 0) is logged after \<open>i + 1\<close> waits of \<open>POLL_MS\<close> with the
  status it was answered. Used to state which polls a call of \<open>generate\<close> made.
\<close>

definition progress :: "revClient \<Rightarrow> nat \<Rightarrow> (int \<times> string) list" where
  "progress client m =
     map (\<lambda>i. (POLL_MS div 1000 * (int i + 1),
               (case getJobDetails client i of Inl e \<Rightarrow> [] | Inr d \<Rightarrow> revDetails.status d)))
       [0..<m]"

text \<open>The provider statuses at which the loop stops polling.\<close>

definition terminal :: "string \<Rightarrow> bool" where
  "terminal st = (st = ''transcribed'' \<or> st \<in> set [''failed'', ''revoked'', ''error''])"

section \<open>The job store and the authorization middleware\<close>

text \<open>A job record; its field \<open>id\<close> is \<open>job_id\<close> here.\<close>

record job =
  job_id :: string
  status :: string
  transcript :: "string option"
  analysis :: "geminiResult option"
  selectedBooks :: jsval
  filePath :: "string option"
  error :: "string option"
  accessToken :: string

definition newJob :: "string \<Rightarrow> string \<Rightarrow> string \<Rightarrow> job" where
  "newJob jobId path token =
     \<lparr>job_id = jobId, status = ''transcribing'', transcript = None, analysis = None,
      selectedBooks = JArr [], filePath = Some path, error = None, accessToken = token\<rparr>"

text \<open>
  The own properties of \<open>jobs\<close> are the job records, a map from identifiers. The other
  names that \<open>jobs[key]\<close> resolves are the members of \<open>Object.prototype\<close>. Its
  standard members are functions, and \<open>__proto__\<close> is \<open>Object.prototype\<close> itself: each
  is truthy and has none of the fields of a job. The only member the server can add is
  \<open>selectedBooks\<close>, which the \<open>/booksselection\<close> handler writes on
  \<open>Object.prototype\<close> when it is called for the name \<open>__proto__\<close>; \<open>inh\<close> is the
  value of that member, \<open>JUndefined\<close> as long as it was never written. A lookup that
  is answered from \<open>Object.prototype\<close> is \<open>Inherited\<close> with the name it was found
  under.
\<close>

definition objectPrototypeKeys :: "string list" where
  "objectPrototypeKeys =
     [''constructor'', ''__proto__'', ''hasOwnProperty'', ''isPrototypeOf'',
      ''propertyIsEnumerable'', ''toLocaleString'', ''toString'', ''valueOf'',
      ''__defineGetter__'', ''__defineSetter__'', ''__lookupGetter__'', ''__lookupSetter__'']"

datatype stored = Own job | Inherited string

definition jobsGet :: "(string \<Rightarrow> job option) \<Rightarrow> jsval \<Rightarrow> string \<Rightarrow> stored option" where
  "jobsGet js inh key =
     (case js key of
        Some j \<Rightarrow> Some (Own j)
      | None \<Rightarrow>
          if key \<in> set objectPrototypeKeys \<or> (key = ''selectedBooks'' \<and> truthy_val inh)
          then Some (Inherited key) else None)"

fun accessTokenOf :: "stored \<Rightarrow> string option" where
  "accessTokenOf (Own j) = Some (accessToken j)"
| "accessTokenOf (Inherited name) = None"

datatype body =
    ErrorBody string
  | StartBody string string
  | StatusBody "string option" "geminiResult option" "string option"
  | NoBody

text \<open>
  What a handler answers. \<open>NoResponse\<close>: the handler raised before it sent anything; what
  the caller then receives is left to the framework (500 from Express 5).
\<close>

datatype response = Response nat body | NoResponse

text \<open>
  \<open>authorizeJob\<close>: \<open>Inl\<close> is the response that ends the request, \<open>Inr\<close> the value
  bound to \<open>req.job\<close> when \<open>next()\<close> is called.
\<close>

definition authorizeJob ::
  "(string \<Rightarrow> job option) \<Rightarrow> jsval \<Rightarrow> string \<Rightarrow> string option \<Rightarrow> response + stored" where
  "authorizeJob js inh jobId authHeader =
     (case jobsGet js inh jobId of
        None \<Rightarrow> Inl (Response 404 (ErrorBody ''Job not found''))
      | Some j \<Rightarrow>
          if \<not> truthy authHeader \<or> authHeader \<noteq> Some (''Bearer '' @ template (accessTokenOf j))
          then Inl (Response 403 (ErrorBody ''Forbidden: Invalid access token''))
          else Inr j)"

section \<open>The analysis stage\<close>

text \<open>
  What \<open>getAnalysis\<close> meets when it runs: the outcome of reading each locator and the
  provider of the analysis adapter.
\<close>

record analysisEnv =
  readFile :: "string \<Rightarrow> string + string"
  generateContent :: "string \<Rightarrow> string + string"

text \<open>\<open>Promise.all\<close> over the reads: all the texts, or a rejection.\<close>

fun readAll :: "(string \<Rightarrow> string + string) \<Rightarrow> book list \<Rightarrow> string + (string \<times> string) list" where
  "readAll rd [] = Inr []"
| "readAll rd (b # bs) =
     (case rd (text_path b) of
        Inl e \<Rightarrow> Inl e
      | Inr txt \<Rightarrow>
          (case readAll rd bs of
             Inl e \<Rightarrow> Inl e
           | Inr ds \<Rightarrow> Inr ((title b, txt) # ds)))"

text \<open>
  \<open>getAnalysis\<close> from the point where its reads were issued for \<open>bs\<close>, the books
  selected when it was called, to its end. The \<open>catch\<close> block is \<open>analysisFailed\<close>.
\<close>

definition analysisFailed :: "job \<Rightarrow> job" where
  "analysisFailed j = j\<lparr>status := ''error'', error := Some ''An error occurred during AI analysis.''\<rparr>"

definition getAnalysis :: "string list \<Rightarrow> analysisEnv \<Rightarrow> book list \<Rightarrow> job \<Rightarrow> job" where
  "getAnalysis keys env bs j =
     (case readAll (readFile env) bs of
        Inl err \<Rightarrow> analysisFailed j
      | Inr bookData \<Rightarrow>
          (case Gemini_new keys (transcript j) bookData of
             Inl err \<Rightarrow> analysisFailed j
           | Inr geminiClient \<Rightarrow>
               j\<lparr>status := ''finished'',
                 analysis := getResponse geminiClient (generateContent env),
                 transcript := None\<rparr>))"

section \<open>The server as a transition system\<close>

text \<open>
  The handlers are \<open>async\<close> functions on a single-threaded event loop: the code between
  two \<open>await\<close>s runs without interruption. A state holds the store, the uploaded files
  on disk, the pending eviction timers, the member \<open>selectedBooks\<close> of
  \<open>Object.prototype\<close> (\<open>injected\<close>) and every suspended handler: where the \<open>/start\<close>
  handler of a job stands, and the calls of \<open>getAnalysis\<close> that await their reads and
  the provider, each with who awaits it and the books it was called for. It also
  records what the properties below speak about: how often each adapter was invoked
  for a job, every value written to a job's \<open>status\<close> in order, and the rejections no
  handler caught.
\<close>

datatype startPc = AtGenerate string | AtAnalysis | AtUnlink string | Done

datatype caller = FromStart | FromBooks

datatype fault = TypeError | ENOENT

record sys =
  jobs :: "string \<Rightarrow> job option"
  files :: "string set"
  timers :: "string set"
  startPc :: "string \<Rightarrow> startPc option"
  pending :: "(string \<times> caller \<times> book list) list"
  transcribeCalls :: "string \<Rightarrow> nat"
  analysisCalls :: "string \<Rightarrow> nat"
  statusLog :: "string \<Rightarrow> string list"
  unhandled :: "(string \<times> fault) list"
  injected :: jsval

definition init :: sys where
  "init = \<lparr>jobs = (\<lambda>k. None), files = {}, timers = {}, startPc = (\<lambda>k. None), pending = [],
           transcribeCalls = (\<lambda>k. 0), analysisCalls = (\<lambda>k. 0), statusLog = (\<lambda>k. []),
           unhandled = [], injected = JUndefined\<rparr>"

text \<open>An assignment \<open>jobs[jobId].status = st\<close> to a stored job.\<close>

definition writeStatus :: "string \<Rightarrow> string \<Rightarrow> sys \<Rightarrow> sys" where
  "writeStatus jobId st s =
     (case jobs s jobId of
        None \<Rightarrow> s
      | Some j \<Rightarrow>
          s\<lparr>jobs := (jobs s)(jobId \<mapsto> j\<lparr>status := st\<rparr>),
            statusLog := (statusLog s)(jobId := statusLog s jobId @ [st])\<rparr>)"

text \<open>
  \<open>tryStartAnalysis\<close>, up to the \<open>await\<close> inside \<open>getAnalysis\<close>. \<open>Started\<close>: the
  status was set and \<open>getAnalysis\<close> was called and is suspended; \<open>Skipped\<close>: it
  returned at once; \<open>Threw\<close>: \<open>job.status\<close> is \<open>undefined\<close> on a value that is not a
  job, and \<open>startsWith\<close> raises a TypeError.
\<close>

datatype tried = Started | Skipped | Threw

definition tryStartAnalysis :: "sys \<Rightarrow> string \<Rightarrow> caller \<Rightarrow> sys \<times> tried" where
  "tryStartAnalysis s jobId who =
     (case jobsGet (jobs s) (injected s) jobId of
        None \<Rightarrow> (s, Skipped)
      | Some (Inherited name) \<Rightarrow> (s, Threw)
      | Some (Own j) \<Rightarrow>
          if prefix ''analysis'' (status j) \<or> status j = ''finished'' \<or> status j = ''error''
          then (s, Skipped)
          else if truthy (transcript j) \<and> nonEmptyArray (selectedBooks j)
          then ((writeStatus jobId ''analysis_started'' s)
                  \<lparr>analysisCalls := (analysisCalls s)(jobId := Suc (analysisCalls s jobId)),
                   pending := pending s @ [(jobId, who, elements (selectedBooks j))]\<rparr>,
                Started)
          else (s, Skipped))"

text \<open>The \<open>catch\<close> and the \<open>finally\<close> block of the \<open>/start\<close> handler.\<close>

definition startCatch :: "sys \<Rightarrow> string \<Rightarrow> sys" where
  "startCatch s jobId =
     (case jobs s jobId of
        None \<Rightarrow> s
      | Some j \<Rightarrow>
          writeStatus jobId ''error''
            (s\<lparr>jobs := (jobs s)(jobId \<mapsto> j\<lparr>error := Some ''Transcription failed.''\<rparr>)\<rparr>))"

definition startFinally :: "sys \<Rightarrow> string \<Rightarrow> sys" where
  "startFinally s jobId =
     (case jobs s jobId of
        None \<Rightarrow> s\<lparr>startPc := (startPc s)(jobId \<mapsto> Done)\<rparr>
      | Some j \<Rightarrow>
          if truthy (filePath j)
          then s\<lparr>startPc := (startPc s)(jobId \<mapsto> AtUnlink (the (filePath j)))\<rparr>
          else s\<lparr>startPc := (startPc s)(jobId \<mapsto> Done)\<rparr>)"

text \<open>
  \<open>POST /start\<close> up to \<open>await transcriptClient.generate(...)\<close>. \<open>jobId\<close> and \<open>token\<close>
  are the values \<open>uuidv4()\<close> and \<open>crypto.randomBytes\<close> returned; \<open>reqFile\<close> is
  \<open>req.file.path\<close>, where the upload middleware stored the file, or \<open>None\<close> when
  there is no \<open>req.file\<close>.
\<close>

definition postStart :: "sys \<Rightarrow> string \<Rightarrow> string \<Rightarrow> string option \<Rightarrow> sys \<times> response" where
  "postStart s jobId token reqFile =
     (case reqFile of
        None \<Rightarrow> (s, Response 400 (ErrorBody ''No file was uploaded or file was empty.''))
      | Some path \<Rightarrow>
          (s\<lparr>jobs := (jobs s)(jobId \<mapsto> newJob jobId path token),
             files := insert path (files s),
             timers := insert jobId (timers s),
             startPc := (startPc s)(jobId \<mapsto> AtGenerate path),
             transcribeCalls := (transcribeCalls s)(jobId := Suc (transcribeCalls s jobId)),
             statusLog := (statusLog s)(jobId := statusLog s jobId @ [''transcribing''])\<rparr>,
           Response 202 (StartBody jobId token)))"

text \<open>
  The \<open>/start\<close> handler resumes when \<open>generate\<close> settles. Writing the transcript to an
  evicted job raises a TypeError inside the \<open>try\<close>, which the \<open>catch\<close> swallows.
\<close>

definition generateSettles :: "sys \<Rightarrow> string \<Rightarrow> revClient \<Rightarrow> sys" where
  "generateSettles s jobId client =
     (case startPc s jobId of
        Some (AtGenerate path) \<Rightarrow>
          (case snd (generate (Transcript_new None) client path) of
             Inl err \<Rightarrow> startFinally (startCatch s jobId) jobId
           | Inr transcriptText \<Rightarrow>
               (case jobs s jobId of
                  None \<Rightarrow> startFinally (startCatch s jobId) jobId
                | Some j \<Rightarrow>
                    (case tryStartAnalysis
                            (writeStatus jobId ''transcribed''
                               (s\<lparr>jobs := (jobs s)(jobId \<mapsto> j\<lparr>transcript := Some transcriptText\<rparr>)\<rparr>))
                            jobId FromStart of
                       (s', Started) \<Rightarrow> s'\<lparr>startPc := (startPc s')(jobId \<mapsto> AtAnalysis)\<rparr>
                     | (s', Skipped) \<Rightarrow> startFinally s' jobId
                     | (s', Threw) \<Rightarrow> startFinally (startCatch s' jobId) jobId)))
      | _ \<Rightarrow> s)"

text \<open>
  A suspended \<open>getAnalysis\<close> of the job runs to its end and whoever awaits it resumes:
  the \<open>/start\<close> handler leaves its \<open>try\<close> block and enters \<open>finally\<close>, the
  \<open>/booksselection\<close> handler ends. Its two \<open>await\<close>s, for the reads and for the
  provider, are one event: the books were fixed when the reads were issued, and nothing
  that can run between the two writes the transcript or the status of the job.
  \<open>getAnalysis\<close> holds the job record itself; after an eviction that record is out of
  the store, and what is written to it is not seen again.
\<close>

fun takePending ::
  "string \<Rightarrow> (string \<times> caller \<times> book list) list \<Rightarrow>
   ((caller \<times> book list) \<times> (string \<times> caller \<times> book list) list) option" where
  "takePending jobId [] = None"
| "takePending jobId (p # ps) =
     (if fst p = jobId then Some (snd p, ps)
      else (case takePending jobId ps of
              None \<Rightarrow> None
            | Some (e, rest) \<Rightarrow> Some (e, p # rest)))"

definition analysisSettles :: "string list \<Rightarrow> sys \<Rightarrow> string \<Rightarrow> analysisEnv \<Rightarrow> sys" where
  "analysisSettles keys s jobId env =
     (case takePending jobId (pending s) of
        None \<Rightarrow> s
      | Some ((who, bs), rest) \<Rightarrow>
          (let s1 = s\<lparr>pending := rest\<rparr>;
               s2 = (case jobs s1 jobId of
                       None \<Rightarrow> s1
                     | Some j \<Rightarrow>
                         s1\<lparr>jobs := (jobs s1)(jobId \<mapsto> getAnalysis keys env bs j),
                            statusLog := (statusLog s1)
                              (jobId := statusLog s1 jobId @ [status (getAnalysis keys env bs j)])\<rparr>)
           in case who of
                FromStart \<Rightarrow> startFinally s2 jobId
              | FromBooks \<Rightarrow> s2))"

text \<open>
  The \<open>/start\<close> handler resumes in its \<open>finally\<close> block when \<open>fs.unlink\<close> settles.
  \<open>unlink\<close> rejects with ENOENT when the file is not there; nothing catches a
  rejection raised in the \<open>finally\<close> block.
\<close>

definition unlinkSettles :: "sys \<Rightarrow> string \<Rightarrow> sys" where
  "unlinkSettles s jobId =
     (case startPc s jobId of
        Some (AtUnlink path) \<Rightarrow>
          (if path \<in> files s
           then (case jobs s jobId of
                   None \<Rightarrow>
                     s\<lparr>files := files s - {path},
                       startPc := (startPc s)(jobId \<mapsto> Done),
                       unhandled := unhandled s @ [(jobId, TypeError)]\<rparr>
                 | Some j \<Rightarrow>
                     s\<lparr>files := files s - {path},
                       jobs := (jobs s)(jobId \<mapsto> j\<lparr>filePath := None\<rparr>),
                       startPc := (startPc s)(jobId \<mapsto> Done)\<rparr>)
           else s\<lparr>startPc := (startPc s)(jobId \<mapsto> Done),
                  unhandled := unhandled s @ [(jobId, ENOENT)]\<rparr>)
      | _ \<Rightarrow> s)"

text \<open>
  \<open>req.body.selectedBooks\<close> for a body whose own field is \<open>own\<close>, \<open>JUndefined\<close> when
  the body has no such field: a body parsed from JSON is a plain object and inherits the
  member from \<open>Object.prototype\<close>.
\<close>

definition bodyField :: "jsval \<Rightarrow> jsval \<Rightarrow> jsval" where
  "bodyField inh own = (if own = JUndefined then inh else own)"

text \<open>\<open>v || []\<close>\<close>

definition orEmpty :: "jsval \<Rightarrow> jsval" where
  "orEmpty v = (if truthy_val v then v else JArr [])"

text \<open>
  \<open>job.selectedBooks = v\<close> on the value \<open>authorizeJob\<close> resolved. On a job record it
  sets the field. Under the name \<open>__proto__\<close> the value is \<open>Object.prototype\<close> and the
  assignment adds the member that every plain object then inherits. Under the name
  \<open>selectedBooks\<close> the value is that member: the assignment raises if it is primitive
  (\<open>None\<close>) and otherwise sets a property of an array or object. That property, like
  one set on a standard member, is read by nothing but the handler's own log line and
  is not kept.
\<close>

fun setSelectedBooks :: "sys \<Rightarrow> string \<Rightarrow> stored \<Rightarrow> jsval \<Rightarrow> sys option" where
  "setSelectedBooks s jobId (Own j) v =
     Some (s\<lparr>jobs := (jobs s)(jobId \<mapsto> j\<lparr>selectedBooks := v\<rparr>)\<rparr>)"
| "setSelectedBooks s jobId (Inherited name) v =
     (if name = ''__proto__'' then Some (s\<lparr>injected := v\<rparr>)
      else if name = ''selectedBooks'' \<and> primitive (injected s) then None
      else Some s)"

text \<open>
  \<open>POST /booksselection/:jobId\<close> behind \<open>authorizeJob\<close>. \<open>body\<close> is \<open>None\<close> when
  \<open>req.body\<close> is \<open>undefined\<close> (no body was parsed), and otherwise the own
  \<open>selectedBooks\<close> of the body, \<open>JUndefined\<close> when it has no such field. Reading a
  field of \<open>undefined\<close> and assigning to a primitive value raise before a response is
  sent. The response is sent before \<open>tryStartAnalysis\<close> is called, so a TypeError
  raised there is a rejection nobody handles.
\<close>

definition postBooksSelection ::
  "sys \<Rightarrow> string \<Rightarrow> string option \<Rightarrow> jsval option \<Rightarrow> sys \<times> response" where
  "postBooksSelection s jobId authHeader body =
     (case authorizeJob (jobs s) (injected s) jobId authHeader of
        Inl r \<Rightarrow> (s, r)
      | Inr reqJob \<Rightarrow>
          (case body of
             None \<Rightarrow> (s\<lparr>unhandled := unhandled s @ [(jobId, TypeError)]\<rparr>, NoResponse)
           | Some own \<Rightarrow>
               (case setSelectedBooks s jobId reqJob (orEmpty (bodyField (injected s) own)) of
                  None \<Rightarrow> (s\<lparr>unhandled := unhandled s @ [(jobId, TypeError)]\<rparr>, NoResponse)
                | Some s1 \<Rightarrow>
                    (case tryStartAnalysis s1 jobId FromBooks of
                       (s', Threw) \<Rightarrow>
                         (s'\<lparr>unhandled := unhandled s' @ [(jobId, TypeError)]\<rparr>, Response 200 NoBody)
                     | (s', r) \<Rightarrow> (s', Response 200 NoBody)))))"

text \<open>\<open>GET /status/:jobId\<close> behind \<open>authorizeJob\<close>.\<close>

definition getStatus :: "sys \<Rightarrow> string \<Rightarrow> string option \<Rightarrow> response" where
  "getStatus s jobId authHeader =
     (case authorizeJob (jobs s) (injected s) jobId authHeader of
        Inl r \<Rightarrow> r
      | Inr (Inherited name) \<Rightarrow> Response 200 (StatusBody None None None)
      | Inr (Own j) \<Rightarrow> Response 200 (StatusBody (Some (status j)) (analysis j) (error j)))"

text \<open>
  The eviction timer of a job. Its \<open>unlink\<close> is not awaited; when it rejects, the
  \<open>catch\<close> callback reads \<open>jobs[jobId].filePath\<close> of the job just deleted and raises
  a TypeError of its own.
\<close>

definition timerFires :: "sys \<Rightarrow> string \<Rightarrow> sys" where
  "timerFires s jobId =
     (if jobId \<in> timers s
      then (case jobs s jobId of
              None \<Rightarrow> s\<lparr>timers := timers s - {jobId}\<rparr>
            | Some j \<Rightarrow>
                (if truthy (filePath j)
                 then (if the (filePath j) \<in> files s
                       then s\<lparr>timers := timers s - {jobId},
                              files := files s - {the (filePath j)},
                              jobs := (jobs s)(jobId := None)\<rparr>
                       else s\<lparr>timers := timers s - {jobId},
                              jobs := (jobs s)(jobId := None),
                              unhandled := unhandled s @ [(jobId, TypeError)]\<rparr>)
                 else s\<lparr>timers := timers s - {jobId}, jobs := (jobs s)(jobId := None)\<rparr>))
      else s)"

text \<open>
  The events of the system. \<open>uuidv4()\<close> returns an identifier that was never issued
  before and is no member name of \<open>Object.prototype\<close>; an upload with any other
  identifier does not occur and leaves the state as it is. \<open>PostBooksSelection\<close>
  carries the own \<open>selectedBooks\<close> of a parsed body, \<open>PostBooksSelectionNoBody\<close> is
  the request without one. \<open>FileRemoved\<close> is the environment deleting a file under
  the upload directory.
\<close>

datatype event =
    PostStart string string "string option"
  | GenerateSettles string revClient
  | PostBooksSelection string "string option" jsval
  | PostBooksSelectionNoBody string "string option"
  | AnalysisSettles string analysisEnv
  | UnlinkSettles string
  | TimerFires string
  | FileRemoved string

fun step :: "string list \<Rightarrow> sys \<Rightarrow> event \<Rightarrow> sys" where
  "step keys s (PostStart jobId token reqFile) =
     (if startPc s jobId = None \<and> jobId \<notin> set objectPrototypeKeys
      then fst (postStart s jobId token reqFile) else s)"
| "step keys s (GenerateSettles jobId client) = generateSettles s jobId client"
| "step keys s (PostBooksSelection jobId authHeader selected) =
     fst (postBooksSelection s jobId authHeader (Some selected))"
| "step keys s (PostBooksSelectionNoBody jobId authHeader) =
     fst (postBooksSelection s jobId authHeader None)"
| "step keys s (AnalysisSettles jobId env) = analysisSettles keys s jobId env"
| "step keys s (UnlinkSettles jobId) = unlinkSettles s jobId"
| "step keys s (TimerFires jobId) = timerFires s jobId"
| "step keys s (FileRemoved path) = s\<lparr>files := files s - {path}\<rparr>"

definition run :: "string list \<Rightarrow> event list \<Rightarrow> sys" where
  "run keys es = foldl (step keys) init es"

section \<open>The invariant of a job\<close>

text \<open>The suspended calls of \<open>getAnalysis\<close> that belong to one job.\<close>

definition pendingFor :: "sys \<Rightarrow> string \<Rightarrow> (string \<times> caller \<times> book list) list" where
  "pendingFor s jobId = filter (\<lambda>p. fst p = jobId) (pending s)"

text \<open>The test of \<open>tryStartAnalysis\<close>: a transcript and a non-empty array of books.\<close>

definition ready :: "job \<Rightarrow> bool" where
  "ready j = (truthy (transcript j) \<and> nonEmptyArray (selectedBooks j))"

text \<open>The histories of \<open>status\<close> that the state machine admits.\<close>

definition paths :: "string list list" where
  "paths =
     [[''transcribing''],
      [''transcribing'', ''error''],
      [''transcribing'', ''transcribed''],
      [''transcribing'', ''transcribed'', ''analysis_started''],
      [''transcribing'', ''transcribed'', ''analysis_started'', ''finished''],
      [''transcribing'', ''transcribed'', ''analysis_started'', ''error'']]"

text \<open>
  The invariant of one job identifier, kept by every event. The history of \<open>status\<close>
  decides how often the adapters were invoked, whether the \<open>/start\<close> handler still
  awaits \<open>generate\<close> and whether a call of \<open>getAnalysis\<close> is suspended; the stored
  job, while it is there, agrees with the history.
\<close>

definition jobInv :: "sys \<Rightarrow> string \<Rightarrow> bool" where
  "jobInv s k =
     ((statusLog s k = [] \<longleftrightarrow> startPc s k = None) \<and>
      (statusLog s k = [] \<longrightarrow> jobs s k = None) \<and>
      (statusLog s k \<noteq> [] \<longrightarrow> statusLog s k \<in> set paths) \<and>
      transcribeCalls s k = (if statusLog s k = [] then 0 else 1) \<and>
      analysisCalls s k = (if ''analysis_started'' \<in> set (statusLog s k) then 1 else 0) \<and>
      length (pendingFor s k) \<le> 1 \<and>
      (pendingFor s k \<noteq> [] \<longrightarrow>
         statusLog s k = [''transcribing'', ''transcribed'', ''analysis_started'']) \<and>
      ((\<exists>p. startPc s k = Some (AtGenerate p)) \<longrightarrow> statusLog s k = [''transcribing'']) \<and>
      (\<forall>j. jobs s k = Some j \<longrightarrow>
         status j = last (statusLog s k) \<and>
         (transcript j \<noteq> None \<longrightarrow> ''transcribed'' \<in> set (statusLog s k)) \<and>
         (\<forall>p. startPc s k = Some (AtGenerate p) \<longrightarrow> filePath j = Some p) \<and>
         (status j = ''transcribed'' \<longrightarrow> \<not> ready j) \<and>
         (analysis j \<noteq> None \<longleftrightarrow> status j = ''finished'')))"

text \<open>
  The upload of a job is released: once its \<open>/start\<close> handler has ended, a stored job
  holds no file reference, unless the \<open>unlink\<close> of the \<open>finally\<close> block was rejected.
\<close>

definition released :: "sys \<Rightarrow> string \<Rightarrow> bool" where
  "released s k =
     (\<forall>j. jobs s k = Some j \<and> startPc s k = Some Done \<and> truthy (filePath j) \<longrightarrow>
          (k, ENOENT) \<in> set (unhandled s))"

text \<open>What the state holds about one job identifier.\<close>

definition view ::
  "sys \<Rightarrow> string \<Rightarrow>
   job option \<times> startPc option \<times> (string \<times> caller \<times> book list) list \<times> nat \<times> nat \<times> string list" where
  "view s k =
     (jobs s k, startPc s k, pendingFor s k, transcribeCalls s k, analysisCalls s k, statusLog s k)"

section \<open>Example inputs\<close>

text \<open>
  Concrete providers, books and requests, used where a statement is checked on a run.
\<close>

definition okClient :: revClient where
  "okClient = \<lparr>submitJobLocalFile = (\<lambda>f. Inr ''rev1''),
     getJobDetails = (\<lambda>k. Inr \<lparr>revDetails.status = ''transcribed'', failure_detail = None, failure = None\<rparr>),
     getTranscriptText = Inr ''bonjour''\<rparr>"

definition stuckClient :: revClient where
  "stuckClient = \<lparr>submitJobLocalFile = (\<lambda>f. Inr ''rev1''),
     getJobDetails = (\<lambda>k. Inr \<lparr>revDetails.status = ''in_progress'', failure_detail = None, failure = None\<rparr>),
     getTranscriptText = Inr ''bonjour''\<rparr>"

definition bookX :: book where
  "bookX = \<lparr>title = ''Book X'', text_path = ''books/x.txt''\<rparr>"

definition okEnv :: analysisEnv where
  "okEnv = \<lparr>readFile = (\<lambda>p. Inr ''chapter one''), generateContent = (\<lambda>key. Inr ''{}'')\<rparr>"

definition failEnv :: analysisEnv where
  "failEnv = \<lparr>readFile = (\<lambda>p. Inr ''chapter one''), generateContent = (\<lambda>key. Inl ''quota exceeded'')\<rparr>"

definition failedClient :: revClient where
  "failedClient = \<lparr>submitJobLocalFile = (\<lambda>f. Inr ''rev1''),
     getJobDetails = (\<lambda>k. Inr \<lparr>revDetails.status = ''failed'', failure_detail = Some ''bad audio'', failure = None\<rparr>),
     getTranscriptText = Inr ''bonjour''\<rparr>"

definition upload1 :: event where
  "upload1 = PostStart ''job1'' ''tok1'' (Some ''uploads/f1'')"

definition select1 :: event where
  "select1 = PostBooksSelection ''job1'' (Some ''Bearer tok1'') (JArr [bookX])"

definition demo :: "event list" where
  "demo = [PostStart ''job1'' ''tok1'' (Some ''uploads/f1''),
           PostBooksSelection ''job1'' (Some ''Bearer tok1'') (JArr [bookX]),
           GenerateSettles ''job1'' okClient,
           AnalysisSettles ''job1'' okEnv,
           UnlinkSettles ''job1'']"

section \<open>The polling loop\<close>

declare pollLoop.simps [simp del]

lemma pollLoop_rejected:
  "getJobDetails client k = Inl e \<Longrightarrow> pollLoop client limit jobid k elapsed = ([], Inl (Rejected e))"
  by (subst pollLoop.simps) simp

lemma pollLoop_last:
  "getJobDetails client k = Inr d \<Longrightarrow> terminal (revDetails.status d) \<or> elapsed + 7 > limit \<Longrightarrow>
   length (fst (pollLoop client limit jobid k elapsed)) = 1 \<and>
   fst (hd (fst (pollLoop client limit jobid k elapsed))) = elapsed + 7 \<and>
   snd (hd (fst (pollLoop client limit jobid k elapsed))) = revDetails.status d"
  by (subst (1 2 3) pollLoop.simps) (auto simp: Let_def POLL_MS_def terminal_def)

lemma pollLoop_continue:
  "getJobDetails client k = Inr d \<Longrightarrow> \<not> terminal (revDetails.status d) \<Longrightarrow> \<not> elapsed + 7 > limit \<Longrightarrow>
   pollLoop client limit jobid k elapsed =
     ((elapsed + 7, revDetails.status d) # fst (pollLoop client limit jobid (Suc k) (elapsed + 7)),
      snd (pollLoop client limit jobid (Suc k) (elapsed + 7)))"
  by (subst pollLoop.simps) (auto simp: Let_def POLL_MS_def terminal_def split: prod.splits)

lemma pollLoop_elapsed:
  "i < length (fst (pollLoop client limit jobid k elapsed)) \<Longrightarrow>
   fst (fst (pollLoop client limit jobid k elapsed) ! i) = elapsed + 7 * (int i + 1)"
proof (induction client limit jobid k elapsed arbitrary: i rule: pollLoop.induct)
  case (1 client limit jobid k elapsed)
  show ?case
  proof (cases "getJobDetails client k")
    case (Inl e)
    with "1.prems" show ?thesis by (simp add: pollLoop_rejected)
  next
    case (Inr d)
    show ?thesis
    proof (cases "terminal (revDetails.status d) \<or> elapsed + 7 > limit")
      case True
      from pollLoop_last[OF Inr True, of jobid] "1.prems" show ?thesis
        by (cases "fst (pollLoop client limit jobid k elapsed)") auto
    next
      case False
      then have nt: "\<not> terminal (revDetails.status d)" and le: "\<not> elapsed + 7 > limit" by auto
      have IH: "j < length (fst (pollLoop client limit jobid (Suc k) (elapsed + 7))) \<Longrightarrow>
         fst (fst (pollLoop client limit jobid (Suc k) (elapsed + 7)) ! j) = elapsed + 7 + 7 * (int j + 1)" for j
        using "1.IH"[OF Inr refl refl, of j] nt le by (simp add: terminal_def POLL_MS_def)
      show ?thesis
        using "1.prems" IH[of "i - 1"]
        unfolding pollLoop_continue[OF Inr nt le, of jobid]
        by (cases i) auto
    qed
  qed
qed

lemma pollLoop_bound:
  "length (fst (pollLoop client limit jobid k elapsed)) \<le> 1 \<or>
   elapsed + 7 * (int (length (fst (pollLoop client limit jobid k elapsed))) - 1) \<le> limit"
proof (induction client limit jobid k elapsed rule: pollLoop.induct)
  case (1 client limit jobid k elapsed)
  show ?case
  proof (cases "getJobDetails client k")
    case (Inl e)
    then show ?thesis by (simp add: pollLoop_rejected)
  next
    case (Inr d)
    show ?thesis
    proof (cases "terminal (revDetails.status d) \<or> elapsed + 7 > limit")
      case True
      from pollLoop_last[OF Inr True, of jobid] show ?thesis by simp
    next
      case False
      then have nt: "\<not> terminal (revDetails.status d)" and le: "\<not> elapsed + 7 > limit" by auto
      have IH: "length (fst (pollLoop client limit jobid (Suc k) (elapsed + 7))) \<le> 1 \<or>
         elapsed + 7 + 7 * (int (length (fst (pollLoop client limit jobid (Suc k) (elapsed + 7)))) - 1) \<le> limit"
        using "1.IH"[OF Inr refl refl] nt le by (simp add: terminal_def POLL_MS_def)
      show ?thesis
        using IH le
        unfolding pollLoop_continue[OF Inr nt le, of jobid]
        by auto
    qed
  qed
qed

lemma pollLoop_timeout:
  "snd (pollLoop client limit jobid k elapsed) = Inl (TimedOut j' d') \<Longrightarrow>
   j' = jobid \<and> d' = limit \<and>
   limit < elapsed + 7 * int (length (fst (pollLoop client limit jobid k elapsed))) \<and>
   (\<forall>l \<in> set (fst (pollLoop client limit jobid k elapsed)). \<not> terminal (snd l))"
proof (induction client limit jobid k elapsed rule: pollLoop.induct)
  case (1 client limit jobid k elapsed)
  show ?case
  proof (cases "getJobDetails client k")
    case (Inl e)
    with "1.prems" show ?thesis by (simp add: pollLoop_rejected)
  next
    case (Inr d)
    show ?thesis
    proof (cases "terminal (revDetails.status d) \<or> elapsed + 7 > limit")
      case True
      with "1.prems" Inr show ?thesis
        by (subst (asm) pollLoop.simps, subst (1 2) pollLoop.simps)
           (auto simp: Let_def POLL_MS_def terminal_def split: if_splits)
    next
      case False
      then have nt: "\<not> terminal (revDetails.status d)" and le: "\<not> elapsed + 7 > limit" by auto
      have IH: "snd (pollLoop client limit jobid (Suc k) (elapsed + 7)) = Inl (TimedOut j' d') \<Longrightarrow>
         j' = jobid \<and> d' = limit \<and>
         limit < elapsed + 7 + 7 * int (length (fst (pollLoop client limit jobid (Suc k) (elapsed + 7)))) \<and>
         (\<forall>l \<in> set (fst (pollLoop client limit jobid (Suc k) (elapsed + 7))). \<not> terminal (snd l))"
        using "1.IH"[OF Inr refl refl] nt le by (simp add: terminal_def POLL_MS_def)
      show ?thesis
        using IH "1.prems" nt
        unfolding pollLoop_continue[OF Inr nt le, of jobid]
        by auto
    qed
  qed
qed

lemma pollLoop_never_terminal:
  "\<forall>i. \<exists>d. getJobDetails client i = Inr d \<and> \<not> terminal (revDetails.status d) \<Longrightarrow>
   snd (pollLoop client limit jobid k elapsed) = Inl (TimedOut jobid limit)"
proof (induction client limit jobid k elapsed rule: pollLoop.induct)
  case (1 client limit jobid k elapsed)
  from "1.prems" obtain d where Inr: "getJobDetails client k = Inr d"
    and nt: "\<not> terminal (revDetails.status d)" by blast
  show ?case
  proof (cases "elapsed + 7 > limit")
    case True
    with Inr nt show ?thesis
      by (subst pollLoop.simps) (auto simp: Let_def POLL_MS_def terminal_def)
  next
    case False
    have "snd (pollLoop client limit jobid (Suc k) (elapsed + 7)) = Inl (TimedOut jobid limit)"
      using "1.IH"[OF Inr refl refl] nt False "1.prems" by (simp add: terminal_def POLL_MS_def)
    then show ?thesis
      unfolding pollLoop_continue[OF Inr nt False, of jobid] by simp
  qed
qed

lemma generate_bounds:
  assumes "generate t client path = (ls, r)"
  shows "(\<forall>i<length ls. fst (ls ! i) = 7 * (int i + 1)) \<and>
     (length ls \<le> 1 \<or> 7 * (int (length ls) - 1) \<le> timeoutS t) \<and>
     (\<forall>jobid d. r = Inl (TimedOut jobid d) \<longrightarrow>
        d = timeoutS t \<and> timeoutS t < 7 * int (length ls) \<and> (\<forall>l\<in>set ls. \<not> terminal (snd l))) \<and>
     ((\<exists>jobid. submitJobLocalFile client path = Inr jobid) \<and>
      (\<forall>i. \<exists>d. getJobDetails client i = Inr d \<and> \<not> terminal (revDetails.status d)) \<longrightarrow>
        (\<exists>jobid. r = Inl (TimedOut jobid (timeoutS t)))) \<and>
     timeoutS (Transcript_new None) = 900 \<and>
     (timeoutS t = 900 \<longrightarrow> length ls \<le> 129)"
proof (cases "submitJobLocalFile client path")
  case (Inl e)
  with assms show ?thesis by (auto simp: generate_def Transcript_new_def)
next
  case (Inr jobid)
  let ?p = "pollLoop client (timeoutS t) jobid 0 0"
  from assms Inr have ls: "ls = fst ?p"
    by (auto simp: generate_def split: prod.splits sum.splits)
  from assms Inr have r: "\<And>j d. r = Inl (TimedOut j d) \<Longrightarrow> snd ?p = Inl (TimedOut j d)"
    by (auto simp: generate_def split: prod.splits sum.splits)
  from assms Inr have r': "\<And>e. snd ?p = Inl e \<Longrightarrow> r = Inl e"
    by (auto simp: generate_def split: prod.splits sum.splits)
  have 1: "\<forall>i<length ls. fst (ls ! i) = 7 * (int i + 1)"
    using pollLoop_elapsed[of _ client "timeoutS t" jobid 0 0] ls by simp
  have 2: "length ls \<le> 1 \<or> 7 * (int (length ls) - 1) \<le> timeoutS t"
    using pollLoop_bound[of client "timeoutS t" jobid 0 0] ls by simp
  have 3: "\<forall>j d. r = Inl (TimedOut j d) \<longrightarrow>
        d = timeoutS t \<and> timeoutS t < 7 * int (length ls) \<and> (\<forall>l\<in>set ls. \<not> terminal (snd l))"
    using pollLoop_timeout[of client "timeoutS t" jobid 0 0] r ls by fastforce
  have 4: "(\<exists>jobid. submitJobLocalFile client path = Inr jobid) \<and>
      (\<forall>i. \<exists>d. getJobDetails client i = Inr d \<and> \<not> terminal (revDetails.status d)) \<longrightarrow>
        (\<exists>jobid. r = Inl (TimedOut jobid (timeoutS t)))"
    using pollLoop_never_terminal[of client "timeoutS t" jobid 0 0] r' by blast
  have 5: "timeoutS (Transcript_new None) = 900" by (simp add: Transcript_new_def)
  have 6: "timeoutS t = 900 \<longrightarrow> length ls \<le> 129" using 2 by auto
  from 1 2 3 4 5 6 show ?thesis by blast
qed

lemma pollLoop_transcribed:
  "getJobDetails client k = Inr d \<Longrightarrow> revDetails.status d = ''transcribed'' \<Longrightarrow>
   pollLoop client limit jobid k elapsed = ([(elapsed + 7, revDetails.status d)], Inr ())"
  by (subst pollLoop.simps) (simp add: Let_def POLL_MS_def)

lemma pollLoop_ended:
  "getJobDetails client k = Inr d \<Longrightarrow>
   revDetails.status d \<in> set [''failed'', ''revoked'', ''error''] \<Longrightarrow>
   pollLoop client limit jobid k elapsed =
     ([(elapsed + 7, revDetails.status d)], Inl (Ended jobid (revDetails.status d) (reason d)))"
  by (subst pollLoop.simps) (auto simp: Let_def POLL_MS_def)

lemma pollLoop_timed_out:
  "getJobDetails client k = Inr d \<Longrightarrow> \<not> terminal (revDetails.status d) \<Longrightarrow>
   limit < elapsed + 7 \<Longrightarrow>
   pollLoop client limit jobid k elapsed =
     ([(elapsed + 7, revDetails.status d)], Inl (TimedOut jobid limit))"
  by (subst pollLoop.simps) (auto simp: Let_def POLL_MS_def terminal_def)

lemma pollLoop_continues:
  assumes "\<forall>i<n. \<exists>d. getJobDetails client (k + i) = Inr d \<and> \<not> terminal (revDetails.status d) \<and>
             elapsed + 7 * (int i + 1) \<le> limit"
  shows "pollLoop client limit jobid k elapsed =
     (map (\<lambda>i. (elapsed + 7 * (int i + 1),
                (case getJobDetails client (k + i) of Inl e \<Rightarrow> [] | Inr d \<Rightarrow> revDetails.status d)))
        [0..<n] @ fst (pollLoop client limit jobid (k + n) (elapsed + 7 * int n)),
      snd (pollLoop client limit jobid (k + n) (elapsed + 7 * int n)))"
  using assms
proof (induction n arbitrary: k elapsed)
  case 0
  show ?case by simp
next
  case (Suc n)
  from Suc.prems obtain d where d: "getJobDetails client k = Inr d"
    "\<not> terminal (revDetails.status d)" "elapsed + 7 \<le> limit"
    by (auto dest: spec[of _ 0])
  have "\<forall>i<n. \<exists>d. getJobDetails client (Suc k + i) = Inr d \<and> \<not> terminal (revDetails.status d) \<and>
             (elapsed + 7) + 7 * (int i + 1) \<le> limit"
  proof (intro allI impI)
    fix i assume "i < n"
    then have "Suc i < Suc n" by simp
    with Suc.prems obtain d' where "getJobDetails client (k + Suc i) = Inr d'"
      "\<not> terminal (revDetails.status d')" "elapsed + 7 * (int (Suc i) + 1) \<le> limit" by blast
    then show "\<exists>d. getJobDetails client (Suc k + i) = Inr d \<and> \<not> terminal (revDetails.status d) \<and>
             (elapsed + 7) + 7 * (int i + 1) \<le> limit"
      by (auto simp: algebra_simps)
  qed
  from Suc.IH[OF this]
  have IH: "pollLoop client limit jobid (Suc k) (elapsed + 7) =
     (map (\<lambda>i. (elapsed + 7 + 7 * (int i + 1),
                (case getJobDetails client (Suc k + i) of Inl e \<Rightarrow> [] | Inr d \<Rightarrow> revDetails.status d)))
        [0..<n] @ fst (pollLoop client limit jobid (Suc k + n) (elapsed + 7 + 7 * int n)),
      snd (pollLoop client limit jobid (Suc k + n) (elapsed + 7 + 7 * int n)))" .
  have le: "\<not> limit < elapsed + 7" using d(3) by simp
  have m: "map (\<lambda>i. (elapsed + 7 * (int i + 1),
                (case getJobDetails client (k + i) of Inl e \<Rightarrow> [] | Inr d \<Rightarrow> revDetails.status d)))
        [0..<Suc n] =
      (elapsed + 7, revDetails.status d) #
      map (\<lambda>i. (elapsed + 7 + 7 * (int i + 1),
                (case getJobDetails client (Suc k + i) of Inl e \<Rightarrow> [] | Inr d \<Rightarrow> revDetails.status d)))
        [0..<n]"
    using d(1)
    by (simp only: upt_conv_Cons[of 0 "Suc n"] map_Suc_upt[symmetric] list.map map_map o_def)
       (simp add: algebra_simps)
  have e: "elapsed + 7 + 7 * int n = elapsed + 7 * int (Suc n)" by simp
  show ?case
    unfolding pollLoop_continue[OF d(1,2) le, of jobid] IH m e by simp
qed

lemma generate_forward:
  assumes g: "generate t client path = (ls, r)"
    and sub: "submitJobLocalFile client path = Inr jobid"
    and pre: "\<forall>i<n. \<exists>d. getJobDetails client i = Inr d \<and> \<not> terminal (revDetails.status d) \<and>
               7 * (int i + 1) \<le> timeoutS t"
  shows "(\<forall>e. getJobDetails client n = Inl e \<longrightarrow> ls = progress client n \<and> r = Inl (Rejected e)) \<and>
     (\<forall>d. getJobDetails client n = Inr d \<and> revDetails.status d = ''transcribed'' \<longrightarrow>
        ls = progress client (Suc n) \<and>
        r = (case getTranscriptText client of Inl e \<Rightarrow> Inl (Rejected e) | Inr tx \<Rightarrow> Inr tx)) \<and>
     (\<forall>d. getJobDetails client n = Inr d \<and>
          revDetails.status d \<in> set [''failed'', ''revoked'', ''error''] \<longrightarrow>
        ls = progress client (Suc n) \<and> r = Inl (Ended jobid (revDetails.status d) (reason d))) \<and>
     (\<forall>d. getJobDetails client n = Inr d \<and> \<not> terminal (revDetails.status d) \<and>
          timeoutS t < 7 * (int n + 1) \<longrightarrow>
        ls = progress client (Suc n) \<and> r = Inl (TimedOut jobid (timeoutS t)))"
proof -
  let ?L = "timeoutS t"
  have pre': "\<forall>i<n. \<exists>d. getJobDetails client (0 + i) = Inr d \<and> \<not> terminal (revDetails.status d) \<and>
             0 + 7 * (int i + 1) \<le> ?L" using pre by simp
  have P: "pollLoop client ?L jobid 0 0 =
     (progress client n @ fst (pollLoop client ?L jobid n (7 * int n)),
      snd (pollLoop client ?L jobid n (7 * int n)))"
    using pollLoop_continues[OF pre', of jobid] by (simp add: progress_def POLL_MS_def)
  have G: "(ls, r) = (case pollLoop client ?L jobid 0 0 of
             (ls, Inl e) \<Rightarrow> (ls, Inl e)
           | (ls, Inr u) \<Rightarrow>
               (case getTranscriptText client of
                  Inl e \<Rightarrow> (ls, Inl (Rejected e))
                | Inr txt \<Rightarrow> (ls, Inr txt)))"
    using g sub by (simp add: generate_def)
  have S: "progress client (Suc n) = progress client n @
      [(7 * (int n + 1), (case getJobDetails client n of Inl e \<Rightarrow> [] | Inr d \<Rightarrow> revDetails.status d))]"
    by (simp add: progress_def POLL_MS_def)
  have 1: "\<forall>e. getJobDetails client n = Inl e \<longrightarrow> ls = progress client n \<and> r = Inl (Rejected e)"
  proof (intro allI impI)
    fix e assume "getJobDetails client n = Inl e"
    from pollLoop_rejected[OF this, of ?L jobid "7 * int n"] G P
    show "ls = progress client n \<and> r = Inl (Rejected e)" by simp
  qed
  have 2: "\<forall>d. getJobDetails client n = Inr d \<and> revDetails.status d = ''transcribed'' \<longrightarrow>
        ls = progress client (Suc n) \<and>
        r = (case getTranscriptText client of Inl e \<Rightarrow> Inl (Rejected e) | Inr tx \<Rightarrow> Inr tx)"
  proof (intro allI impI)
    fix d assume a: "getJobDetails client n = Inr d \<and> revDetails.status d = ''transcribed''"
    then have "pollLoop client ?L jobid n (7 * int n) = ([(7 * int n + 7, revDetails.status d)], Inr ())"
      using pollLoop_transcribed[of client n d ?L jobid "7 * int n"] by simp
    with G P S a
    show "ls = progress client (Suc n) \<and>
        r = (case getTranscriptText client of Inl e \<Rightarrow> Inl (Rejected e) | Inr tx \<Rightarrow> Inr tx)"
      by (auto simp: algebra_simps split: sum.splits)
  qed
  have 3: "\<forall>d. getJobDetails client n = Inr d \<and>
          revDetails.status d \<in> set [''failed'', ''revoked'', ''error''] \<longrightarrow>
        ls = progress client (Suc n) \<and> r = Inl (Ended jobid (revDetails.status d) (reason d))"
  proof (intro allI impI)
    fix d assume a: "getJobDetails client n = Inr d \<and>
          revDetails.status d \<in> set [''failed'', ''revoked'', ''error'']"
    then have "pollLoop client ?L jobid n (7 * int n) =
        ([(7 * int n + 7, revDetails.status d)], Inl (Ended jobid (revDetails.status d) (reason d)))"
      using pollLoop_ended[of client n d ?L jobid "7 * int n"] by simp
    with G P S a
    show "ls = progress client (Suc n) \<and> r = Inl (Ended jobid (revDetails.status d) (reason d))"
      by (auto simp: algebra_simps)
  qed
  have 4: "\<forall>d. getJobDetails client n = Inr d \<and> \<not> terminal (revDetails.status d) \<and>
          timeoutS t < 7 * (int n + 1) \<longrightarrow>
        ls = progress client (Suc n) \<and> r = Inl (TimedOut jobid (timeoutS t))"
  proof (intro allI impI)
    fix d assume a: "getJobDetails client n = Inr d \<and> \<not> terminal (revDetails.status d) \<and>
          timeoutS t < 7 * (int n + 1)"
    then have "pollLoop client ?L jobid n (7 * int n) =
        ([(7 * int n + 7, revDetails.status d)], Inl (TimedOut jobid ?L))"
      using pollLoop_timed_out[of client n d ?L "7 * int n" jobid] by (simp add: algebra_simps)
    with G P S a
    show "ls = progress client (Suc n) \<and> r = Inl (TimedOut jobid (timeoutS t))"
      by (auto simp: algebra_simps)
  qed
  from 1 2 3 4 show ?thesis by blast
qed

lemma stopping_poll_exists:
  "\<exists>n. (\<forall>i<n. \<exists>d. getJobDetails client i = Inr d \<and> \<not> terminal (revDetails.status d) \<and>
               7 * (int i + 1) \<le> limit) \<and>
       ((\<exists>e. getJobDetails client n = Inl e) \<or>
        (\<exists>d. getJobDetails client n = Inr d \<and>
             (terminal (revDetails.status d) \<or> limit < 7 * (int n + 1))))"
proof -
  let ?P = "\<lambda>i. \<not> (\<exists>d. getJobDetails client i = Inr d \<and> \<not> terminal (revDetails.status d) \<and>
               7 * (int i + 1) \<le> limit)"
  have "?P (nat limit)" by auto
  then have L: "?P (LEAST i. ?P i)" by (rule LeastI)
  have B: "\<forall>i<(LEAST i. ?P i). \<not> ?P i" using not_less_Least by blast
  show ?thesis
  proof (intro exI[of _ "LEAST i. ?P i"] conjI)
    show "\<forall>i<(LEAST i. ?P i). \<exists>d. getJobDetails client i = Inr d \<and>
        \<not> terminal (revDetails.status d) \<and> 7 * (int i + 1) \<le> limit"
      using B by blast
    show "(\<exists>e. getJobDetails client (LEAST i. ?P i) = Inl e) \<or>
        (\<exists>d. getJobDetails client (LEAST i. ?P i) = Inr d \<and>
             (terminal (revDetails.status d) \<or> limit < 7 * (int (LEAST i. ?P i) + 1)))"
      using L by (cases "getJobDetails client (LEAST i. ?P i)") auto
  qed
qed

section \<open>The invariant holds in every run\<close>

lemma getResponseLoop_Some: "keys \<noteq> [] \<Longrightarrow> getResponseLoop g keys \<noteq> None"
  by (induction keys) (auto split: sum.splits)

lemma getAnalysis_cases:
  "(getAnalysis keys env bs j = analysisFailed j) \<or>
   (\<exists>r. getAnalysis keys env bs j = j\<lparr>status := ''finished'', analysis := Some r, transcript := None\<rparr>)"
proof (cases "readAll (readFile env) bs")
  case (Inl a)
  then show ?thesis by (simp add: getAnalysis_def)
next
  case (Inr ds)
  show ?thesis
  proof (cases "keys = []")
    case True
    with Inr show ?thesis by (simp add: getAnalysis_def Gemini_new_def)
  next
    case False
    with getResponseLoop_Some[of keys "generateContent env"] obtain r where
      "getResponseLoop (generateContent env) keys = Some r" by auto
    with Inr False show ?thesis
      by (auto simp add: getAnalysis_def Gemini_new_def getResponse_def)
  qed
qed

lemma path_transcribing: "l \<in> set paths \<Longrightarrow> last l = ''transcribing'' \<Longrightarrow> l = [''transcribing'']"
  by (auto simp: paths_def)

lemma path_transcribed:
  "l \<in> set paths \<Longrightarrow> last l = ''transcribed'' \<Longrightarrow> l = [''transcribing'', ''transcribed'']"
  by (auto simp: paths_def)

lemma path_analysis_started:
  "l \<in> set paths \<Longrightarrow> last l = ''analysis_started'' \<Longrightarrow>
   l = [''transcribing'', ''transcribed'', ''analysis_started'']"
  by (auto simp: paths_def)

lemma path_last:
  "l \<in> set paths \<Longrightarrow>
   last l \<in> {''transcribing'', ''transcribed'', ''analysis_started'', ''finished'', ''error''}"
  by (auto simp: paths_def)

lemma inv_init: "jobInv init k"
  by (simp add: jobInv_def init_def pendingFor_def)

lemma inv_frame:
  assumes "jobInv s k"
    and "statusLog s' k = statusLog s k"
    and "startPc s' k = None \<longleftrightarrow> startPc s k = None"
    and "\<And>p. startPc s' k = Some (AtGenerate p) \<Longrightarrow> startPc s k = Some (AtGenerate p)"
    and "pendingFor s' k = [] \<or> pendingFor s' k = pendingFor s k"
    and "transcribeCalls s' k = transcribeCalls s k"
    and "analysisCalls s' k = analysisCalls s k"
    and "\<And>j'. jobs s' k = Some j' \<Longrightarrow> \<exists>j. jobs s k = Some j \<and> status j' = status j \<and>
           transcript j' = transcript j \<and> analysis j' = analysis j \<and>
           (ready j' \<longrightarrow> ready j \<or> status j \<noteq> ''transcribed'') \<and>
           ((\<exists>p. startPc s' k = Some (AtGenerate p)) \<longrightarrow> filePath j' = filePath j)"
  shows "jobInv s' k"
  unfolding jobInv_def
proof (intro conjI allI impI)
  fix j' assume j': "jobs s' k = Some j'"
  from assms(8)[OF j'] obtain j where j: "jobs s k = Some j" "status j' = status j"
    "transcript j' = transcript j" "analysis j' = analysis j"
    "ready j' \<longrightarrow> ready j \<or> status j \<noteq> ''transcribed''"
    "(\<exists>p. startPc s' k = Some (AtGenerate p)) \<longrightarrow> filePath j' = filePath j" by blast
  from assms(1) j(1) have I: "status j = ''transcribed'' \<longrightarrow> \<not> ready j"
    "status j = last (statusLog s k)"
    "transcript j \<noteq> None \<longrightarrow> ''transcribed'' \<in> set (statusLog s k)"
    "\<forall>p. startPc s k = Some (AtGenerate p) \<longrightarrow> filePath j = Some p"
    "analysis j \<noteq> None \<longleftrightarrow> status j = ''finished''"
    unfolding jobInv_def by blast+
  show "status j' = last (statusLog s' k)" using I j assms(2) by simp
  show "''transcribed'' \<in> set (statusLog s' k)" if "transcript j' \<noteq> None"
    using that I j assms(2) by simp
  show "filePath j' = Some p" if "startPc s' k = Some (AtGenerate p)" for p
    using that I j assms(4)[OF that] by auto
  show "\<not> ready j'" if "status j' = ''transcribed''" using that j I by auto
  show "(analysis j' \<noteq> None) = (status j' = ''finished'')" using I j by simp
next
  show "(statusLog s' k = []) = (startPc s' k = None)"
    using assms(1,2,3) unfolding jobInv_def by simp
  show "jobs s' k = None" if "statusLog s' k = []"
    using that assms(1,2,8) unfolding jobInv_def by (cases "jobs s' k") auto
  show "statusLog s' k \<in> set paths" if "statusLog s' k \<noteq> []"
    using that assms(1,2) unfolding jobInv_def by simp
  show "transcribeCalls s' k = (if statusLog s' k = [] then 0 else 1)"
    using assms(1,2,6) unfolding jobInv_def by simp
  show "analysisCalls s' k = (if ''analysis_started'' \<in> set (statusLog s' k) then 1 else 0)"
    using assms(1,2,7) unfolding jobInv_def by simp
  show "length (pendingFor s' k) \<le> 1"
    using assms(1,5) unfolding jobInv_def by auto
  show "statusLog s' k = [''transcribing'', ''transcribed'', ''analysis_started'']"
    if "pendingFor s' k \<noteq> []"
    using that assms(1,2,5) unfolding jobInv_def by auto
  show "statusLog s' k = [''transcribing'']" if "\<exists>p. startPc s' k = Some (AtGenerate p)"
    using that assms(1,2,4) unfolding jobInv_def by auto
qed

lemma inv_fileRemoved: "jobInv s k \<Longrightarrow> jobInv (s\<lparr>files := F\<rparr>) k"
  by (erule inv_frame) (auto simp: pendingFor_def)

lemma inv_timerFires: "jobInv s k \<Longrightarrow> jobInv (timerFires s i) k"
  by (erule inv_frame) (auto simp: timerFires_def pendingFor_def split: option.splits if_splits)

lemma inv_unlinkSettles: "jobInv s k \<Longrightarrow> jobInv (unlinkSettles s i) k"
  by (erule inv_frame)
     (auto simp: unlinkSettles_def pendingFor_def ready_def split: option.splits startPc.splits if_splits)

lemma inv_startFinally: "jobInv s k \<Longrightarrow> startPc s i \<noteq> None \<Longrightarrow> jobInv (startFinally s i) k"
  by (erule inv_frame)
     (auto simp: startFinally_def pendingFor_def split: option.splits if_splits)

lemma inv_view: "view s' k = view s k \<Longrightarrow> jobInv s' k = jobInv s k"
  by (simp add: jobInv_def view_def)

lemma view_writeStatus: "i \<noteq> k \<Longrightarrow> view (writeStatus i st s) k = view s k"
  by (simp add: view_def writeStatus_def pendingFor_def split: option.splits)

lemma view_startCatch: "i \<noteq> k \<Longrightarrow> view (startCatch s i) k = view s k"
  by (simp add: view_def startCatch_def writeStatus_def pendingFor_def split: option.splits)

lemma view_startFinally: "i \<noteq> k \<Longrightarrow> view (startFinally s i) k = view s k"
  by (simp add: view_def startFinally_def pendingFor_def split: option.splits)

lemma view_tryStartAnalysis: "i \<noteq> k \<Longrightarrow> view (fst (tryStartAnalysis s i who)) k = view s k"
  by (simp add: view_def tryStartAnalysis_def writeStatus_def pendingFor_def
           split: option.splits stored.splits)

lemma view_jobs_upd: "i \<noteq> k \<Longrightarrow> view (s\<lparr>jobs := (jobs s)(i := v)\<rparr>) k = view s k"
  by (simp add: view_def pendingFor_def)

lemma view_startPc_upd: "i \<noteq> k \<Longrightarrow> view (s\<lparr>startPc := (startPc s)(i := v)\<rparr>) k = view s k"
  by (simp add: view_def pendingFor_def)

lemma view_unhandled_upd: "view (s\<lparr>unhandled := u\<rparr>) k = view s k"
  by (simp add: view_def pendingFor_def)

lemma view_generateSettles: "i \<noteq> k \<Longrightarrow> view (generateSettles s i c) k = view s k"
proof -
  assume ik: "i \<noteq> k"
  have ts: "view (fst (tryStartAnalysis s' i who)) k = view s' k" for s' who
    using ik by (rule view_tryStartAnalysis)
  show ?thesis
    unfolding generateSettles_def
    using ik ts
    by (auto simp: view_startCatch view_startFinally view_writeStatus view_jobs_upd view_startPc_upd
                   case_prod_beta
             split: option.splits startPc.splits sum.splits tried.splits)
qed

lemma takePending_other:
  "takePending i ps = Some (e, rest) \<Longrightarrow> i \<noteq> k \<Longrightarrow>
   filter (\<lambda>p. fst p = k) rest = filter (\<lambda>p. fst p = k) ps"
  by (induction ps arbitrary: rest) (auto split: if_splits option.splits)

lemma takePending_same:
  "takePending k ps = Some (e, rest) \<Longrightarrow>
   filter (\<lambda>p. fst p = k) ps = (k, e) # filter (\<lambda>p. fst p = k) rest"
  by (induction ps arbitrary: rest) (auto split: if_splits option.splits)

lemma takePending_None: "takePending k ps = None \<longleftrightarrow> filter (\<lambda>p. fst p = k) ps = []"
  by (induction ps) (auto split: if_splits option.splits)

lemma view_analysisSettles: "i \<noteq> k \<Longrightarrow> view (analysisSettles keys s i env) k = view s k"
proof (cases "takePending i (pending s)")
  case None
  then show ?thesis by (simp add: analysisSettles_def)
next
  case (Some a)
  assume ik: "i \<noteq> k"
  obtain who bs rest where a: "a = ((who, bs), rest)" by (metis surj_pair)
  have p: "pendingFor (s\<lparr>pending := rest\<rparr>) k = pendingFor s k"
    using takePending_other[OF Some[unfolded a] ik] by (simp add: pendingFor_def)
  have v: "view (s\<lparr>pending := rest\<rparr>) k = view s k"
    using p by (simp add: view_def)
  show ?thesis
    using Some a ik v
    by (cases who; cases "jobs s i")
       (simp_all add: analysisSettles_def Let_def view_startFinally,
        simp_all add: view_def pendingFor_def)
qed

lemma tryStartAnalysis_own:
  "jobs s k = Some j \<Longrightarrow> snd (tryStartAnalysis s k who) \<noteq> Threw"
  by (simp add: tryStartAnalysis_def jobsGet_def)

lemma tryStartAnalysis_inherited:
  "jobsGet (jobs s) (injected s) k = Some (Inherited name) \<Longrightarrow>
   tryStartAnalysis s k who = (s, Threw)"
  by (simp add: tryStartAnalysis_def)

lemma authorizeJob_own: "authorizeJob js inh k a = Inr (Own j) \<Longrightarrow> js k = Some j"
  by (auto simp: authorizeJob_def jobsGet_def split: option.splits if_splits)

lemma authorizeJob_inherited:
  "authorizeJob js inh k a = Inr (Inherited name) \<Longrightarrow>
   js k = None \<and> name = k \<and> jobsGet js inh k = Some (Inherited k)"
  by (auto simp: authorizeJob_def jobsGet_def split: option.splits if_splits)

lemma postBooksSelection_cases:
  obtains (same) "fst (postBooksSelection s k a body) = s"
  | (raised) v where
      "fst (postBooksSelection s k a body) =
         s\<lparr>unhandled := unhandled s @ [(k, TypeError)], injected := v\<rparr>"
  | (own) j v where "jobs s k = Some j"
      "fst (postBooksSelection s k a body) =
         fst (tryStartAnalysis (s\<lparr>jobs := (jobs s)(k \<mapsto> j\<lparr>selectedBooks := v\<rparr>)\<rparr>) k FromBooks)"
proof (cases "authorizeJob (jobs s) (injected s) k a")
  case (Inl r)
  then have "fst (postBooksSelection s k a body) = s" by (simp add: postBooksSelection_def)
  then show ?thesis by (rule same)
next
  case (Inr reqJob)
  show ?thesis
  proof (cases body)
    case None
    with Inr have "fst (postBooksSelection s k a body) =
        s\<lparr>unhandled := unhandled s @ [(k, TypeError)], injected := injected s\<rparr>"
      by (simp add: postBooksSelection_def)
    then show ?thesis by (rule raised)
  next
    case (Some own)
    let ?v = "orEmpty (bodyField (injected s) own)"
    show ?thesis
    proof (cases reqJob)
      case (Own j)
      from Inr Own have j: "jobs s k = Some j" by (auto dest: authorizeJob_own)
      let ?s1 = "s\<lparr>jobs := (jobs s)(k \<mapsto> j\<lparr>selectedBooks := ?v\<rparr>)\<rparr>"
      have "jobs ?s1 k = Some (j\<lparr>selectedBooks := ?v\<rparr>)" by simp
      then have "snd (tryStartAnalysis ?s1 k FromBooks) \<noteq> Threw" by (rule tryStartAnalysis_own)
      with Inr Some Own
      have "fst (postBooksSelection s k a body) = fst (tryStartAnalysis ?s1 k FromBooks)"
        by (simp add: postBooksSelection_def case_prod_beta split: tried.splits)
      with j show ?thesis by (rule own)
    next
      case (Inherited name)
      from Inr Inherited have n: "jobs s k = None" "name = k"
        "jobsGet (jobs s) (injected s) k = Some (Inherited k)"
        by (auto dest: authorizeJob_inherited)
      consider (proto) "k = ''__proto__''"
        | (prim) "k \<noteq> ''__proto__''" "k = ''selectedBooks'' \<and> primitive (injected s)"
        | (other) "k \<noteq> ''__proto__''" "\<not> (k = ''selectedBooks'' \<and> primitive (injected s))"
        by blast
      then show ?thesis
      proof cases
        case proto
        let ?s1 = "s\<lparr>injected := ?v\<rparr>"
        have "jobsGet (jobs ?s1) (injected ?s1) k = Some (Inherited k)"
          using n(1) proto by (simp add: jobsGet_def objectPrototypeKeys_def)
        then have "tryStartAnalysis ?s1 k FromBooks = (?s1, Threw)"
          by (rule tryStartAnalysis_inherited)
        with Inr Some Inherited n(2) proto
        have "fst (postBooksSelection s k a body) =
            s\<lparr>unhandled := unhandled s @ [(k, TypeError)], injected := ?v\<rparr>"
          by (simp add: postBooksSelection_def)
        then show ?thesis by (rule raised)
      next
        case prim
        with Inr Some Inherited n(2)
        have "fst (postBooksSelection s k a body) =
            s\<lparr>unhandled := unhandled s @ [(k, TypeError)], injected := injected s\<rparr>"
          by (simp add: postBooksSelection_def)
        then show ?thesis by (rule raised)
      next
        case other
        from n(3) have "tryStartAnalysis s k FromBooks = (s, Threw)"
          by (rule tryStartAnalysis_inherited)
        with Inr Some Inherited n(2) other
        have "fst (postBooksSelection s k a body) =
            s\<lparr>unhandled := unhandled s @ [(k, TypeError)], injected := injected s\<rparr>"
          by (auto simp: postBooksSelection_def)
        then show ?thesis by (rule raised)
      qed
    qed
  qed
qed

lemma view_postBooksSelection:
  "i \<noteq> k \<Longrightarrow> view (fst (postBooksSelection s i a body)) k = view s k"
proof -
  assume ik: "i \<noteq> k"
  show ?thesis
  proof (cases rule: postBooksSelection_cases[of s i a body])
    case same
    then show ?thesis by simp
  next
    case (raised v)
    then show ?thesis by (simp add: view_def pendingFor_def)
  next
    case (own j v)
    from own(2) view_tryStartAnalysis[OF ik] view_jobs_upd[OF ik] show ?thesis by simp
  qed
qed

lemma view_postStart: "i \<noteq> k \<Longrightarrow> view (fst (postStart s i t f)) k = view s k"
  by (simp add: postStart_def view_def pendingFor_def split: option.splits)

lemma inv_postStart_same:
  "jobInv s k \<Longrightarrow> startPc s k = None \<Longrightarrow> jobInv (fst (postStart s k t f)) k"
proof (cases f)
  case None
  assume "jobInv s k"
  with None show ?thesis by (simp add: postStart_def)
next
  case (Some path)
  assume I: "jobInv s k" and n: "startPc s k = None"
  from I n have f: "statusLog s k = []" "jobs s k = None" "pendingFor s k = []"
    "transcribeCalls s k = 0" "analysisCalls s k = 0"
    unfolding jobInv_def by auto
  show ?thesis
    using f Some
    by (simp add: jobInv_def postStart_def newJob_def paths_def pendingFor_def)
qed

lemma inv_generateSettles_same: "jobInv s k \<Longrightarrow> jobInv (generateSettles s k c) k"
proof -
  assume I: "jobInv s k"
  consider (idle) "\<forall>p. startPc s k \<noteq> Some (AtGenerate p)"
    | (gone) p where "startPc s k = Some (AtGenerate p)" "jobs s k = None"
    | (live) p j where "startPc s k = Some (AtGenerate p)" "jobs s k = Some j"
    by (cases "jobs s k") auto
  then show ?thesis
  proof cases
    case idle
    then have "generateSettles s k c = s"
      by (auto simp: generateSettles_def split: option.splits startPc.splits)
    with I show ?thesis by simp
  next
    case gone
    then have "generateSettles s k c = s\<lparr>startPc := (startPc s)(k \<mapsto> Done)\<rparr>"
      by (auto simp: generateSettles_def startCatch_def startFinally_def split: sum.splits)
    moreover have "jobInv (s\<lparr>startPc := (startPc s)(k \<mapsto> Done)\<rparr>) k"
      using I gone by (elim inv_frame) (auto simp: pendingFor_def)
    ultimately show ?thesis by simp
  next
    case live
    from I live have lg: "statusLog s k = [''transcribing'']" unfolding jobInv_def by auto
    from I live lg have f: "status j = ''transcribing''" "transcript j = None"
      "pendingFor s k = []" "analysis j = None" "filePath j = Some p"
      unfolding jobInv_def by auto
    from I lg have c: "transcribeCalls s k = 1" "analysisCalls s k = 0"
      unfolding jobInv_def by auto
    show ?thesis
    proof (cases "snd (generate (Transcript_new None) c p)")
      case (Inl e)
      show ?thesis
        using live lg f c Inl
        by (simp add: jobInv_def generateSettles_def startCatch_def startFinally_def writeStatus_def
              paths_def pendingFor_def)
    next
      case (Inr tx)
      show ?thesis
        using live lg f c Inr
        by (simp add: jobInv_def generateSettles_def startCatch_def startFinally_def writeStatus_def
              tryStartAnalysis_def jobsGet_def ready_def
              paths_def pendingFor_def)
    qed
  qed
qed

lemma inv_analysisSettles_same: "jobInv s k \<Longrightarrow> jobInv (analysisSettles keys s k env) k"
proof (cases "takePending k (pending s)")
  case None
  assume "jobInv s k"
  with None show ?thesis by (simp add: analysisSettles_def)
next
  case (Some a)
  assume I: "jobInv s k"
  obtain who bs rest where a: "a = ((who, bs), rest)" by (metis surj_pair)
  from takePending_same[OF Some[unfolded a]]
  have pf: "pendingFor s k = (k, who, bs) # pendingFor (s\<lparr>pending := rest\<rparr>) k"
    by (simp add: pendingFor_def)
  with I have p0: "pendingFor (s\<lparr>pending := rest\<rparr>) k = []"
    unfolding jobInv_def by auto
  have fin: "jobInv (startFinally s' k) k" if "jobInv s' k" "startPc s' k \<noteq> None" for s'
    using that by (rule inv_startFinally)
  from I pf have lg: "statusLog s k = [''transcribing'', ''transcribed'', ''analysis_started'']"
    unfolding jobInv_def by auto
  from I lg have sp: "startPc s k \<noteq> None" unfolding jobInv_def by auto
  from I lg have ng: "\<forall>p. startPc s k \<noteq> Some (AtGenerate p)"
    unfolding jobInv_def by auto
  show ?thesis
  proof (cases "jobs s k")
    case None
    have "jobInv (s\<lparr>pending := rest\<rparr>) k"
      using I p0 None by (elim inv_frame) auto
    with fin[of "s\<lparr>pending := rest\<rparr>"] sp Some a None show ?thesis
      by (cases who) (simp_all add: analysisSettles_def)
  next
    case (Some j)
    from I Some lg have st: "status j = ''analysis_started''" unfolding jobInv_def by auto
    from I Some st have f: "analysis j = None" unfolding jobInv_def by auto
    from I lg have c: "transcribeCalls s k = 1" "analysisCalls s k = 1"
      unfolding jobInv_def by auto
    let ?s2 = "s\<lparr>pending := rest,
      jobs := (jobs s)(k \<mapsto> getAnalysis keys env bs j),
      statusLog := (statusLog s)(k := statusLog s k @ [status (getAnalysis keys env bs j)])\<rparr>"
    have "jobInv ?s2 k"
      using getAnalysis_cases[of keys env bs j] Some st lg f c p0 sp ng
      by (auto simp: jobInv_def paths_def pendingFor_def analysisFailed_def)
    moreover have "startPc ?s2 k \<noteq> None" using sp by simp
    ultimately show ?thesis
      using fin[of ?s2] \<open>takePending k (pending s) = Some a\<close> a Some
      by (cases who) (simp_all add: analysisSettles_def)
  qed
qed

lemma inv_select_try:
  assumes I: "jobInv s k" and j: "jobs s k = Some j"
  shows "jobInv (fst (tryStartAnalysis (s\<lparr>jobs := (jobs s)(k \<mapsto> j\<lparr>selectedBooks := v\<rparr>)\<rparr>) k who)) k"
proof -
  let ?j1 = "j\<lparr>selectedBooks := v\<rparr>"
  let ?s1 = "s\<lparr>jobs := (jobs s)(k \<mapsto> ?j1)\<rparr>"
  from I j have ne: "statusLog s k \<noteq> []" unfolding jobInv_def by auto
  with I j have pl: "statusLog s k \<in> set paths" and sl: "status j = last (statusLog s k)"
    unfolding jobInv_def by auto
  have g: "jobsGet (jobs ?s1) (injected ?s1) k = Some (Own ?j1)" by (simp add: jobsGet_def)
  have frame: "jobInv ?s1 k" if "ready ?j1 \<longrightarrow> status j \<noteq> ''transcribed''"
    using I j that by (elim inv_frame) (auto simp: pendingFor_def)
  from path_last[OF pl] sl consider
      (T) "status j = ''transcribing''" | (D) "status j = ''transcribed''"
    | (G) "status j = ''analysis_started'' \<or> status j = ''finished'' \<or> status j = ''error''"
    by auto
  then show ?thesis
  proof cases
    case T
    with sl pl have "statusLog s k = [''transcribing'']" by (metis path_transcribing)
    with I j have "transcript j = None" unfolding jobInv_def by auto
    then have nr: "\<not> ready ?j1" by (simp add: ready_def truthy_def)
    with T g have "fst (tryStartAnalysis ?s1 k who) = ?s1"
      by (auto simp: tryStartAnalysis_def ready_def)
    with frame nr show ?thesis by simp
  next
    case G
    with g have "fst (tryStartAnalysis ?s1 k who) = ?s1"
      by (auto simp: tryStartAnalysis_def)
    with frame G show ?thesis by auto
  next
    case D
    show ?thesis
    proof (cases "ready ?j1")
      case False
      with D g have "fst (tryStartAnalysis ?s1 k who) = ?s1"
        by (auto simp: tryStartAnalysis_def ready_def)
      with frame False show ?thesis by simp
    next
      case True
      from D sl pl have lg: "statusLog s k = [''transcribing'', ''transcribed'']"
        by (metis path_transcribed)
      from I j D lg have f: "pendingFor s k = []" "analysis j = None"
        "\<forall>p. startPc s k \<noteq> Some (AtGenerate p)" "startPc s k \<noteq> None"
        unfolding jobInv_def by auto
      from I lg have c: "transcribeCalls s k = 1" "analysisCalls s k = 0"
        unfolding jobInv_def by auto
      show ?thesis
        using True D g lg f c j
        by (simp add: tryStartAnalysis_def ready_def writeStatus_def jobInv_def paths_def
              pendingFor_def)
    qed
  qed
qed

lemma inv_postBooksSelection_same: "jobInv s k \<Longrightarrow> jobInv (fst (postBooksSelection s k a body)) k"
proof -
  assume I: "jobInv s k"
  show ?thesis
  proof (cases rule: postBooksSelection_cases[of s k a body])
    case same
    with I show ?thesis by simp
  next
    case (raised v)
    then have "view (fst (postBooksSelection s k a body)) k = view s k"
      by (simp add: view_def pendingFor_def)
    from inv_view[OF this] I show ?thesis by simp
  next
    case (own j v)
    from inv_select_try[OF I own(1), of v FromBooks] own(2) show ?thesis by simp
  qed
qed

lemma inv_step: "jobInv s k \<Longrightarrow> jobInv (step keys s e) k"
proof (cases e)
  case (PostStart i t f)
  assume I: "jobInv s k"
  show ?thesis
  proof (cases "i = k")
    case True
    with I PostStart show ?thesis by (simp add: inv_postStart_same)
  next
    case False
    with I PostStart show ?thesis by (simp add: inv_view[OF view_postStart])
  qed
next
  case (GenerateSettles i c)
  assume I: "jobInv s k"
  then show ?thesis using GenerateSettles
    by (cases "i = k") (simp_all add: inv_generateSettles_same inv_view[OF view_generateSettles])
next
  case (PostBooksSelection i a sel)
  assume I: "jobInv s k"
  then show ?thesis using PostBooksSelection
    by (cases "i = k") (simp_all add: inv_postBooksSelection_same inv_view[OF view_postBooksSelection])
next
  case (PostBooksSelectionNoBody i a)
  assume I: "jobInv s k"
  then show ?thesis using PostBooksSelectionNoBody
    by (cases "i = k") (simp_all add: inv_postBooksSelection_same inv_view[OF view_postBooksSelection])
next
  case (AnalysisSettles i env)
  assume I: "jobInv s k"
  then show ?thesis using AnalysisSettles
    by (cases "i = k") (simp_all add: inv_analysisSettles_same inv_view[OF view_analysisSettles])
next
  case (UnlinkSettles i)
  assume "jobInv s k"
  then show ?thesis using UnlinkSettles by (simp add: inv_unlinkSettles)
next
  case (TimerFires i)
  assume "jobInv s k"
  then show ?thesis using TimerFires by (simp add: inv_timerFires)
next
  case (FileRemoved p)
  assume "jobInv s k"
  then show ?thesis using FileRemoved by (simp add: inv_fileRemoved)
qed

lemma inv_foldl: "jobInv s k \<Longrightarrow> jobInv (foldl (step keys) s es) k"
  by (induction es arbitrary: s) (simp_all add: inv_step)

lemma inv_run: "jobInv (run keys es) k"
  unfolding run_def by (rule inv_foldl) (rule inv_init)

section \<open>The history of a status only grows\<close>

lemma view_statusLog: "view s' k = view s k \<Longrightarrow> statusLog s' k = statusLog s k"
  by (simp add: view_def)


lemma log_writeStatus: "prefix (statusLog s k) (statusLog (writeStatus i st s) k)"
  by (simp add: writeStatus_def split: option.splits)

lemma log_startCatch: "prefix (statusLog s k) (statusLog (startCatch s i) k)"
  by (simp add: startCatch_def writeStatus_def split: option.splits)

lemma log_startFinally: "statusLog (startFinally s i) k = statusLog s k"
  by (simp add: startFinally_def split: option.splits)

lemma log_tryStartAnalysis: "prefix (statusLog s k) (statusLog (fst (tryStartAnalysis s i who)) k)"
  by (simp add: tryStartAnalysis_def writeStatus_def split: option.splits stored.splits)

lemma log_generateSettles: "prefix (statusLog s k) (statusLog (generateSettles s i c) k)"
proof -
  have a: "prefix (statusLog s k) (statusLog (startFinally (startCatch s i) i) k)"
    by (simp add: log_startFinally log_startCatch)
  have b: "prefix (statusLog s k) (statusLog (fst (tryStartAnalysis (writeStatus i st (s\<lparr>jobs := J\<rparr>)) i who)) k)"
    for st J who
    using log_tryStartAnalysis[of "writeStatus i st (s\<lparr>jobs := J\<rparr>)" k i who]
      log_writeStatus[of "s\<lparr>jobs := J\<rparr>" k i st]
    by (auto elim: prefix_order.trans)
  have c: "prefix (statusLog s k) (statusLog (startCatch s' i) k)"
    if "prefix (statusLog s k) (statusLog s' k)" for s'
    using that log_startCatch[of s' k i] by (auto elim: prefix_order.trans)
  show ?thesis
    unfolding generateSettles_def
    using a b c
    by (auto simp: case_prod_beta log_startFinally
             split: option.splits startPc.splits sum.splits tried.splits)
qed

lemma log_analysisSettles: "prefix (statusLog s k) (statusLog (analysisSettles keys s i env) k)"
  by (auto simp: analysisSettles_def Let_def log_startFinally
           split: option.splits caller.splits)

lemma log_postBooksSelection: "prefix (statusLog s k) (statusLog (fst (postBooksSelection s i a body)) k)"
proof (cases rule: postBooksSelection_cases[of s i a body])
  case same
  then show ?thesis by simp
next
  case (raised v)
  then show ?thesis by simp
next
  case (own j v)
  from log_tryStartAnalysis[of "s\<lparr>jobs := (jobs s)(i \<mapsto> j\<lparr>selectedBooks := v\<rparr>)\<rparr>" k i FromBooks] own(2)
  show ?thesis by simp
qed

lemma log_step: "prefix (statusLog s k) (statusLog (step keys s e) k)"
proof (cases e)
  case (PostStart i t f)
  then show ?thesis by (simp add: postStart_def split: option.splits)
next
  case (GenerateSettles i c)
  then show ?thesis by (simp add: log_generateSettles)
next
  case (PostBooksSelection i a sel)
  then show ?thesis by (simp add: log_postBooksSelection)
next
  case (PostBooksSelectionNoBody i a)
  then show ?thesis by (simp add: log_postBooksSelection)
next
  case (AnalysisSettles i env)
  then show ?thesis by (simp add: log_analysisSettles)
next
  case (UnlinkSettles i)
  then show ?thesis by (simp add: unlinkSettles_def split: option.splits startPc.splits)
next
  case (TimerFires i)
  then show ?thesis by (simp add: timerFires_def split: option.splits)
next
  case (FileRemoved p)
  then show ?thesis by simp
qed

lemma log_foldl: "prefix (statusLog s k) (statusLog (foldl (step keys) s es) k)"
proof (induction es arbitrary: s)
  case Nil
  show ?case by simp
next
  case (Cons e es)
  from log_step[of s k keys e] Cons[of "step keys s e"] show ?case
    by (auto elim: prefix_order.trans)
qed

lemma run_append: "run keys (es @ es') = foldl (step keys) (run keys es) es'"
  by (simp add: run_def)

lemma path_maximal:
  "l \<in> set paths \<Longrightarrow> l' \<in> set paths \<Longrightarrow> prefix l l' \<Longrightarrow> last l = ''error'' \<Longrightarrow> l' = l"
  by (auto simp: paths_def)

section \<open>When the analysis is invoked\<close>

lemma tryStartAnalysis_cases:
  "tryStartAnalysis s k who = (s, Skipped) \<or> tryStartAnalysis s k who = (s, Threw) \<or>
   (\<exists>j. jobs s k = Some j \<and> ready j \<and>
      tryStartAnalysis s k who =
        (s\<lparr>jobs := (jobs s)(k \<mapsto> j\<lparr>status := ''analysis_started''\<rparr>),
           statusLog := (statusLog s)(k := statusLog s k @ [''analysis_started'']),
           analysisCalls := (analysisCalls s)(k := Suc (analysisCalls s k)),
           pending := pending s @ [(k, who, elements (selectedBooks j))]\<rparr>, Started))"
proof (cases "jobs s k")
  case None
  then show ?thesis by (simp add: tryStartAnalysis_def jobsGet_def)
next
  case (Some j)
  then show ?thesis
    by (simp add: tryStartAnalysis_def jobsGet_def writeStatus_def ready_def)
qed

lemma calls_startFinally [simp]: "analysisCalls (startFinally s i) = analysisCalls s"
  by (simp add: startFinally_def split: option.splits)

lemma jobs_startFinally [simp]: "jobs (startFinally s i) = jobs s"
  by (simp add: startFinally_def split: option.splits)

lemma calls_startCatch [simp]: "analysisCalls (startCatch s i) = analysisCalls s"
  by (simp add: startCatch_def writeStatus_def split: option.splits)

lemma calls_writeStatus [simp]: "analysisCalls (writeStatus i st s) = analysisCalls s"
  by (simp add: writeStatus_def split: option.splits)










section \<open>The end of the upload handler\<close>

lemma takePending_append:
  "takePending k ps = None \<Longrightarrow> takePending k (ps @ [(k, e)]) = Some (e, ps)"
  by (induction ps) (auto split: if_splits option.splits)

lemma filePath_getAnalysis: "filePath (getAnalysis keys env bs j) = filePath j"
  using getAnalysis_cases[of keys env bs j] by (auto simp: analysisFailed_def)

lemma unlink_after_finally:
  assumes "jobs s k = Some j" "filePath j = Some p" "p \<noteq> []" "p \<in> files s"
  shows "p \<notin> files (unlinkSettles (startFinally s k) k) \<and>
     (\<exists>j'. jobs (unlinkSettles (startFinally s k) k) k = Some j' \<and> filePath j' = None) \<and>
     startPc (unlinkSettles (startFinally s k) k) k = Some Done"
  using assms by (simp add: startFinally_def unlinkSettles_def truthy_def)

lemma unlink_rejects:
  "startPc s k = Some (AtUnlink p) \<Longrightarrow> p \<notin> files s \<Longrightarrow>
   unhandled (unlinkSettles s k) = unhandled s @ [(k, ENOENT)] \<and>
   jobs (unlinkSettles s k) = jobs s"
  by (simp add: unlinkSettles_def)

lemma analysis_noop:
  "takePending k (pending s) = None \<Longrightarrow> analysisSettles keys s k env = s"
  by (simp add: analysisSettles_def)

lemma startFinally_pending [simp]: "pending (startFinally s k) = pending s"
  by (simp add: startFinally_def split: option.splits)

lemma startFinally_files [simp]: "files (startFinally s k) = files s"
  by (simp add: startFinally_def split: option.splits)

lemma upload_released_progress:
  assumes "jobs (run keys es) k = Some j"
    and "startPc (run keys es) k = Some (AtGenerate p)"
    and "p \<noteq> []"
    and "p \<in> files (run keys es)"
  shows "p \<notin> files (foldl (step keys) (run keys es)
                      [GenerateSettles k client, AnalysisSettles k env, UnlinkSettles k]) \<and>
     (\<exists>j'. jobs (foldl (step keys) (run keys es)
                   [GenerateSettles k client, AnalysisSettles k env, UnlinkSettles k]) k = Some j' \<and>
           filePath j' = None) \<and>
     startPc (foldl (step keys) (run keys es)
                [GenerateSettles k client, AnalysisSettles k env, UnlinkSettles k]) k = Some Done"
proof -
  let ?s = "run keys es"
  have I: "jobInv ?s k" by (rule inv_run)
  from I assms(2) have lg: "statusLog ?s k = [''transcribing'']" unfolding jobInv_def by auto
  from I assms(1,2) lg have f: "status j = ''transcribing''" "filePath j = Some p"
    unfolding jobInv_def by auto
  from I lg have "pendingFor ?s k = []" unfolding jobInv_def by auto
  then have tp: "takePending k (pending ?s) = None"
    by (simp add: takePending_None pendingFor_def)
  have fin: "p \<notin> files (unlinkSettles (analysisSettles keys (startFinally s1 k) k env) k) \<and>
     (\<exists>j'. jobs (unlinkSettles (analysisSettles keys (startFinally s1 k) k env) k) k = Some j' \<and>
           filePath j' = None) \<and>
     startPc (unlinkSettles (analysisSettles keys (startFinally s1 k) k env) k) k = Some Done"
    if "jobs s1 k = Some j1" "filePath j1 = Some p" "p \<in> files s1" "pending s1 = pending ?s"
    for s1 j1
    using that tp unlink_after_finally[OF that(1,2) assms(3) that(3)]
    by (simp add: analysis_noop)
  show ?thesis
  proof (cases "snd (generate (Transcript_new None) client p)")
    case (Inl e)
    have g: "generateSettles ?s k client = startFinally (startCatch ?s k) k"
      using assms(2) Inl by (simp add: generateSettles_def)
    show ?thesis
      using fin[of "startCatch ?s k" "j\<lparr>error := Some ''Transcription failed.'', status := ''error''\<rparr>"]
        assms(1,4) f
      by (simp add: g startCatch_def writeStatus_def)
  next
    case (Inr tx)
    let ?j2 = "j\<lparr>transcript := Some tx, status := ''transcribed''\<rparr>"
    let ?s2 = "writeStatus k ''transcribed'' (?s\<lparr>jobs := (jobs ?s)(k \<mapsto> j\<lparr>transcript := Some tx\<rparr>)\<rparr>)"
    have j2: "jobs ?s2 k = Some ?j2" "files ?s2 = files ?s" "pending ?s2 = pending ?s"
      by (simp_all add: writeStatus_def)
    from tryStartAnalysis_cases[of ?s2 k FromStart]
    consider (skip) "tryStartAnalysis ?s2 k FromStart = (?s2, Skipped)"
      | (threw) "tryStartAnalysis ?s2 k FromStart = (?s2, Threw)"
      | (started) "tryStartAnalysis ?s2 k FromStart =
          (?s2\<lparr>jobs := (jobs ?s2)(k \<mapsto> ?j2\<lparr>status := ''analysis_started''\<rparr>),
             statusLog := (statusLog ?s2)(k := statusLog ?s2 k @ [''analysis_started'']),
             analysisCalls := (analysisCalls ?s2)(k := Suc (analysisCalls ?s2 k)),
             pending := pending ?s2 @ [(k, FromStart, elements (selectedBooks ?j2))]\<rparr>, Started)"
      using j2(1) by auto
    then show ?thesis
    proof cases
      case skip
      have g: "generateSettles ?s k client = startFinally ?s2 k"
        using assms(1,2) Inr skip by (simp add: generateSettles_def)
      show ?thesis
        using fin[of ?s2 ?j2] j2 assms(4) f by (simp add: g)
    next
      case threw
      have "jobsGet (jobs ?s2) (injected ?s2) k = Some (Own ?j2)" using j2(1) by (simp add: jobsGet_def)
      with threw show ?thesis by (simp add: tryStartAnalysis_def split: if_splits)
    next
      case started
      let ?s3 = "?s2\<lparr>jobs := (jobs ?s2)(k \<mapsto> ?j2\<lparr>status := ''analysis_started''\<rparr>),
             statusLog := (statusLog ?s2)(k := statusLog ?s2 k @ [''analysis_started'']),
             analysisCalls := (analysisCalls ?s2)(k := Suc (analysisCalls ?s2 k)),
             pending := pending ?s2 @ [(k, FromStart, elements (selectedBooks ?j2))],
             startPc := (startPc ?s2)(k \<mapsto> AtAnalysis)\<rparr>"
      have g: "generateSettles ?s k client = ?s3"
        using assms(1,2) Inr started by (simp add: generateSettles_def)
      have tk: "takePending k (pending ?s3) =
          Some ((FromStart, elements (selectedBooks ?j2)), pending ?s)"
        using takePending_append[OF tp] j2(3) by simp
      let ?j4 = "getAnalysis keys env (elements (selectedBooks ?j2)) (?j2\<lparr>status := ''analysis_started''\<rparr>)"
      let ?s4 = "?s3\<lparr>pending := pending ?s,
           jobs := (jobs ?s3)(k \<mapsto> ?j4),
           statusLog := (statusLog ?s3)(k := statusLog ?s3 k @ [status ?j4])\<rparr>"
      have a: "analysisSettles keys ?s3 k env = startFinally ?s4 k"
        using tk by (simp add: analysisSettles_def)
      have "jobs ?s4 k = Some ?j4" "filePath ?j4 = Some p" "p \<in> files ?s4"
        using f assms(4) j2(2) by (simp_all add: filePath_getAnalysis)
      note u = unlink_after_finally[OF this(1,2) assms(3) this(3)]
      have e: "foldl (step keys) ?s [GenerateSettles k client, AnalysisSettles k env, UnlinkSettles k] =
          unlinkSettles (startFinally ?s4 k) k"
        unfolding foldl_Cons foldl_Nil step.simps g a ..
      show ?thesis unfolding e by (rule u)
    qed
  qed
qed

section \<open>The upload is released\<close>

lemma released_frame:
  assumes "released s k"
    and "set (unhandled s) \<subseteq> set (unhandled s')"
    and "\<And>j'. jobs s' k = Some j' \<Longrightarrow> startPc s' k = Some Done \<Longrightarrow> truthy (filePath j') \<Longrightarrow>
           (\<exists>j. jobs s k = Some j \<and> startPc s k = Some Done \<and> filePath j = filePath j') \<or>
           (k, ENOENT) \<in> set (unhandled s')"
  shows "released s' k"
  unfolding released_def
proof (intro allI impI)
  fix j' assume a: "jobs s' k = Some j' \<and> startPc s' k = Some Done \<and> truthy (filePath j')"
  from assms(3)[of j'] a consider
      j where "jobs s k = Some j" "startPc s k = Some Done" "filePath j = filePath j'"
    | "(k, ENOENT) \<in> set (unhandled s')" by blast
  then show "(k, ENOENT) \<in> set (unhandled s')"
  proof cases
    case 1
    with a assms(1) have "(k, ENOENT) \<in> set (unhandled s)" unfolding released_def by auto
    with assms(2) show ?thesis by auto
  next
    case 2
    then show ?thesis .
  qed
qed

lemma unhandled_startFinally [simp]: "unhandled (startFinally s i) = unhandled s"
  by (simp add: startFinally_def split: option.splits)

lemma unhandled_startCatch [simp]: "unhandled (startCatch s i) = unhandled s"
  by (simp add: startCatch_def writeStatus_def split: option.splits)

lemma unhandled_writeStatus [simp]: "unhandled (writeStatus i st s) = unhandled s"
  by (simp add: writeStatus_def split: option.splits)

lemma startPc_startCatch [simp]: "startPc (startCatch s i) = startPc s"
  by (simp add: startCatch_def writeStatus_def split: option.splits)

lemma startPc_writeStatus [simp]: "startPc (writeStatus i st s) = startPc s"
  by (simp add: writeStatus_def split: option.splits)

lemma startFinally_Done:
  "jobs (startFinally s k) k = Some j \<Longrightarrow> startPc (startFinally s k) k = Some Done \<Longrightarrow>
   \<not> truthy (filePath j)"
  by (auto simp: startFinally_def split: option.splits if_splits)

lemma startFinally_other:
  "i \<noteq> k \<Longrightarrow> startPc (startFinally s i) k = startPc s k"
  by (simp add: startFinally_def split: option.splits)

lemma released_startFinally: "released s k \<Longrightarrow> released (startFinally s i) k"
proof (cases "i = k")
  case True
  assume "released s k"
  with True show ?thesis
    using startFinally_Done[of s k] by (auto simp: released_def)
next
  case False
  assume "released s k"
  with False show ?thesis by (simp add: released_def startFinally_other)
qed

lemma released_unlinkSettles: "released s k \<Longrightarrow> released (unlinkSettles s i) k"
  by (erule released_frame)
     (auto simp: unlinkSettles_def truthy_def split: option.splits startPc.splits if_splits)

lemma released_timerFires: "released s k \<Longrightarrow> released (timerFires s i) k"
  by (erule released_frame) (auto simp: timerFires_def split: option.splits if_splits)

lemma released_postStart:
  "released s k \<Longrightarrow> released (fst (postStart s i t f)) k"
  by (erule released_frame) (auto simp: postStart_def split: option.splits if_splits)

lemma released_upd:
  "released s k \<Longrightarrow> jobs s i = Some j \<Longrightarrow> filePath j' = filePath j \<Longrightarrow>
   released (s\<lparr>jobs := (jobs s)(i \<mapsto> j')\<rparr>) k"
  by (erule released_frame) (auto split: if_splits)

lemma released_unhandled: "released s k \<Longrightarrow> released (s\<lparr>unhandled := unhandled s @ u\<rparr>) k"
  by (erule released_frame) auto

lemma released_startPc:
  "released s k \<Longrightarrow> pc \<noteq> Done \<Longrightarrow> released (s\<lparr>startPc := (startPc s)(i \<mapsto> pc)\<rparr>) k"
  by (erule released_frame) (auto split: if_splits)

lemma released_writeStatus: "released s k \<Longrightarrow> released (writeStatus i st s) k"
  by (erule released_frame) (auto simp: writeStatus_def split: option.splits if_splits)

lemma released_startCatch: "released s k \<Longrightarrow> released (startCatch s i) k"
  by (erule released_frame) (auto simp: startCatch_def writeStatus_def split: option.splits if_splits)

lemma released_tryStartAnalysis: "released s k \<Longrightarrow> released (fst (tryStartAnalysis s i who)) k"
  using tryStartAnalysis_cases[of s i who]
  by (auto elim!: released_frame split: if_splits)

lemma released_generateSettles: "released s k \<Longrightarrow> released (generateSettles s i c) k"
proof -
  assume R: "released s k"
  have a: "released (startFinally (startCatch s i) i) k"
    using R by (intro released_startFinally released_startCatch)
  have b: "released (fst (tryStartAnalysis (writeStatus i ''transcribed''
              (s\<lparr>jobs := (jobs s)(i \<mapsto> j\<lparr>transcript := Some tx\<rparr>)\<rparr>)) i FromStart)) k"
    if "jobs s i = Some j" for j tx
    using R that by (intro released_tryStartAnalysis released_writeStatus released_upd[of s k i j]) simp_all
  have c: "released (s'\<lparr>startPc := (startPc s')(i \<mapsto> AtAnalysis)\<rparr>) k" if "released s' k" for s'
    using that by (rule released_startPc) simp
  show ?thesis
    unfolding generateSettles_def
    using R a b c
    by (auto simp: case_prod_beta
             intro!: released_startFinally released_startCatch
             split: option.splits startPc.splits sum.splits tried.splits)
qed

lemma released_analysisSettles: "released s k \<Longrightarrow> released (analysisSettles keys s i env) k"
proof (cases "takePending i (pending s)")
  case None
  assume "released s k"
  with None show ?thesis by (simp add: analysisSettles_def)
next
  case (Some a)
  assume R: "released s k"
  obtain who bs rest where a: "a = ((who, bs), rest)" by (metis surj_pair)
  have R1: "released (s\<lparr>pending := rest\<rparr>) k"
    using R by (elim released_frame) auto
  show ?thesis
  proof (cases "jobs s i")
    case None
    with Some a R1 show ?thesis
      by (cases who) (simp_all add: analysisSettles_def released_startFinally)
  next
    case (Some j)
    let ?s2 = "s\<lparr>pending := rest,
      jobs := (jobs s)(i \<mapsto> getAnalysis keys env bs j),
      statusLog := (statusLog s)(i := statusLog s i @ [status (getAnalysis keys env bs j)])\<rparr>"
    have "released ?s2 k"
      using R Some by (elim released_frame) (auto simp: filePath_getAnalysis split: if_splits)
    with \<open>takePending i (pending s) = Some a\<close> a Some show ?thesis
      by (cases who) (simp_all add: analysisSettles_def released_startFinally)
  qed
qed

lemma released_postBooksSelection:
  "released s k \<Longrightarrow> released (fst (postBooksSelection s i a body)) k"
proof -
  assume R: "released s k"
  show ?thesis
  proof (cases rule: postBooksSelection_cases[of s i a body])
    case same
    with R show ?thesis by simp
  next
    case (raised v)
    from R have "released (s\<lparr>unhandled := unhandled s @ [(i, TypeError)], injected := v\<rparr>) k"
      by (elim released_frame) auto
    with raised show ?thesis by simp
  next
    case (own j v)
    let ?s1 = "s\<lparr>jobs := (jobs s)(i \<mapsto> j\<lparr>selectedBooks := v\<rparr>)\<rparr>"
    have R1: "released ?s1 k" using R own(1) by (rule released_upd) simp
    have "released (fst (tryStartAnalysis ?s1 i FromBooks)) k"
      using R1 by (rule released_tryStartAnalysis)
    with own(2) show ?thesis by simp
  qed
qed

lemma released_step: "released s k \<Longrightarrow> released (step keys s e) k"
proof (cases e)
  case (PostStart i t f)
  assume "released s k"
  with PostStart show ?thesis by (simp add: released_postStart)
next
  case (GenerateSettles i c)
  assume "released s k"
  with GenerateSettles show ?thesis by (simp add: released_generateSettles)
next
  case (PostBooksSelection i a sel)
  assume "released s k"
  with PostBooksSelection show ?thesis by (simp add: released_postBooksSelection)
next
  case (PostBooksSelectionNoBody i a)
  assume "released s k"
  with PostBooksSelectionNoBody show ?thesis by (simp add: released_postBooksSelection)
next
  case (AnalysisSettles i env)
  assume "released s k"
  with AnalysisSettles show ?thesis by (simp add: released_analysisSettles)
next
  case (UnlinkSettles i)
  assume "released s k"
  with UnlinkSettles show ?thesis by (simp add: released_unlinkSettles)
next
  case (TimerFires i)
  assume "released s k"
  with TimerFires show ?thesis by (simp add: released_timerFires)
next
  case (FileRemoved p)
  assume "released s k"
  then have "released (s\<lparr>files := files s - {p}\<rparr>) k"
    by (elim released_frame) auto
  with FileRemoved show ?thesis by simp
qed

lemma released_foldl: "released s k \<Longrightarrow> released (foldl (step keys) s es) k"
  by (induction es arbitrary: s) (simp_all add: released_step)

lemma released_run: "released (run keys es) k"
  unfolding run_def by (rule released_foldl) (simp add: released_def init_def)

section \<open>The authorization middleware, the selection handler and the exhausted pool\<close>

lemma authorize_inherited:
  "js k = None \<Longrightarrow> k \<in> set objectPrototypeKeys \<Longrightarrow>
   authorizeJob js inh k a =
     (if a = Some ''Bearer undefined'' then Inr (Inherited k)
      else Inl (Response 403 (ErrorBody ''Forbidden: Invalid access token'')))"
  by (auto simp: authorizeJob_def jobsGet_def truthy_def template_def)

lemma authorize_known:
  "js k = Some j \<Longrightarrow>
   (authorizeJob js inh k a = Inr (Own j) \<longleftrightarrow> a = Some (''Bearer '' @ accessToken j)) \<and>
   (a \<noteq> Some (''Bearer '' @ accessToken j) \<longrightarrow>
      authorizeJob js inh k a = Inl (Response 403 (ErrorBody ''Forbidden: Invalid access token'')))"
  by (auto simp: authorizeJob_def jobsGet_def truthy_def template_def)

lemma authorize_unknown:
  "js k = None \<Longrightarrow> k \<notin> set objectPrototypeKeys \<Longrightarrow> \<not> (k = ''selectedBooks'' \<and> truthy_val inh) \<Longrightarrow>
   authorizeJob js inh k a = Inl (Response 404 (ErrorBody ''Job not found''))"
  by (simp add: authorizeJob_def jobsGet_def)

lemma booksselection_sets_selection:
  assumes "authorizeJob (jobs s) (injected s) k a = Inr (Own j)"
  shows "snd (postBooksSelection s k a (Some own)) = Response 200 NoBody \<and>
     (\<exists>j'. jobs (fst (postBooksSelection s k a (Some own))) k = Some j' \<and>
           selectedBooks j' = orEmpty (bodyField (injected s) own)) \<and>
     (\<not> nonEmptyArray (orEmpty (bodyField (injected s) own)) \<longrightarrow>
        jobs (fst (postBooksSelection s k a (Some own))) k =
          Some (j\<lparr>selectedBooks := orEmpty (bodyField (injected s) own)\<rparr>) \<and>
        analysisCalls (fst (postBooksSelection s k a (Some own))) = analysisCalls s \<and>
        pending (fst (postBooksSelection s k a (Some own))) = pending s)"
proof -
  let ?v = "orEmpty (bodyField (injected s) own)"
  let ?s1 = "s\<lparr>jobs := (jobs s)(k \<mapsto> j\<lparr>selectedBooks := ?v\<rparr>)\<rparr>"
  have p: "postBooksSelection s k a (Some own) =
      (case tryStartAnalysis ?s1 k FromBooks of
         (s', Threw) \<Rightarrow> (s'\<lparr>unhandled := unhandled s' @ [(k, TypeError)]\<rparr>, Response 200 NoBody)
       | (s', r) \<Rightarrow> (s', Response 200 NoBody))"
    using assms by (simp add: postBooksSelection_def)
  have j1: "jobs ?s1 k = Some (j\<lparr>selectedBooks := ?v\<rparr>)" by simp
  from tryStartAnalysis_cases[of ?s1 k FromBooks]
  consider (skip) "tryStartAnalysis ?s1 k FromBooks = (?s1, Skipped)"
    | (threw) "tryStartAnalysis ?s1 k FromBooks = (?s1, Threw)"
    | (started) "ready (j\<lparr>selectedBooks := ?v\<rparr>)"
        "tryStartAnalysis ?s1 k FromBooks =
          (?s1\<lparr>jobs := (jobs ?s1)(k \<mapsto> j\<lparr>selectedBooks := ?v, status := ''analysis_started''\<rparr>),
             statusLog := (statusLog ?s1)(k := statusLog ?s1 k @ [''analysis_started'']),
             analysisCalls := (analysisCalls ?s1)(k := Suc (analysisCalls ?s1 k)),
             pending := pending ?s1 @ [(k, FromBooks, elements (selectedBooks (j\<lparr>selectedBooks := ?v\<rparr>)))]\<rparr>,
           Started)"
    using j1 by auto
  then show ?thesis
  proof cases
    case skip
    then have r: "postBooksSelection s k a (Some own) = (?s1, Response 200 NoBody)"
      by (simp add: p)
    show ?thesis unfolding r by auto
  next
    case threw
    with tryStartAnalysis_own[OF j1, of FromBooks] show ?thesis by simp
  next
    case started
    from started(2) have r: "postBooksSelection s k a (Some own) =
        (?s1\<lparr>jobs := (jobs ?s1)(k \<mapsto> j\<lparr>selectedBooks := ?v, status := ''analysis_started''\<rparr>),
             statusLog := (statusLog ?s1)(k := statusLog ?s1 k @ [''analysis_started'']),
             analysisCalls := (analysisCalls ?s1)(k := Suc (analysisCalls ?s1 k)),
             pending := pending ?s1 @ [(k, FromBooks, elements (selectedBooks (j\<lparr>selectedBooks := ?v\<rparr>)))]\<rparr>,
         Response 200 NoBody)"
      by (simp add: p)
    from started(1) have "nonEmptyArray ?v" by (auto simp: ready_def)
    then show ?thesis unfolding r by auto
  qed
qed

lemma booksselection_own_field:
  "own \<noteq> JUndefined \<or> inh = JUndefined \<Longrightarrow>
   orEmpty (bodyField inh own) = (if truthy_val own then own else JArr [])"
  by (auto simp: orEmpty_def bodyField_def)

lemma booksselection_without_body:
  "authorizeJob (jobs s) (injected s) k a = Inr reqJob \<Longrightarrow>
   postBooksSelection s k a None = (s\<lparr>unhandled := unhandled s @ [(k, TypeError)]\<rparr>, NoResponse)"
  by (simp add: postBooksSelection_def)

lemma getResponseLoop_exhausted:
  "keys \<noteq> [] \<Longrightarrow> \<forall>key\<in>set keys. \<exists>m. call key = Inl m \<Longrightarrow>
   \<exists>m. call (last keys) = Inl m \<and>
       getResponseLoop call keys = Some \<lparr>response = None, error = Some (''Gemini API error: '' @ m)\<rparr>"
  by (induction keys) (auto split: sum.splits)

lemma getAnalysis_exhausted:
  assumes "keys \<noteq> []" "\<forall>key\<in>set keys. \<exists>m. generateContent env key = Inl m"
    and "readAll (readFile env) bs = Inr ds"
  shows "\<exists>m. generateContent env (last keys) = Inl m \<and>
     getAnalysis keys env bs j =
       j\<lparr>status := ''finished'',
         analysis := Some \<lparr>response = None, error = Some (''Gemini API error: '' @ m)\<rparr>,
         transcript := None\<rparr>"
  using getResponseLoop_exhausted[OF assms(1,2)] assms(1,3)
  by (auto simp: getAnalysis_def Gemini_new_def getResponse_def)

section \<open>The example runs\<close>

lemma g1: "generate (Transcript_new (Some 20)) stuckClient ''uploads/f1'' =
   ([(7, ''in_progress''), (14, ''in_progress''), (21, ''in_progress'')], Inl (TimedOut ''rev1'' 20))"
  by (simp add: generate_def Transcript_new_def stuckClient_def pollLoop.simps POLL_MS_def Let_def)

lemma g2: "snd (generate (Transcript_new None) okClient p) = Inr ''bonjour''"
  by (simp add: generate_def Transcript_new_def okClient_def pollLoop.simps POLL_MS_def Let_def)

lemma g3: "snd (generate (Transcript_new None) failedClient p) =
   Inl (Ended ''rev1'' ''failed'' ''bad audio'')"
  by (simp add: generate_def Transcript_new_def failedClient_def pollLoop.simps POLL_MS_def Let_def
        reason_def truthy_def template_def)

lemmas eval_defs = run_def step.simps init_def postStart_def newJob_def generateSettles_def
  startCatch_def startFinally_def writeStatus_def tryStartAnalysis_def jobsGet_def
  analysisSettles_def unlinkSettles_def postBooksSelection_def authorizeJob_def getStatus_def
  timerFires_def objectPrototypeKeys_def truthy_def template_def getAnalysis_def
  analysisFailed_def Gemini_new_def getResponse_def Let_def bodyField_def orEmpty_def

lemma demo_jobs: "jobs (run [''key1'', ''key2''] demo) ''job1'' =
   Some \<lparr>job_id = ''job1'', status = ''finished'', transcript = None,
     analysis = Some \<lparr>response = Some ''{}'', error = None\<rparr>,
     selectedBooks = JArr [bookX],
     filePath = None, error = None, accessToken = ''tok1''\<rparr>"
  by (simp add: eval_defs demo_def g2 okEnv_def bookX_def)



lemma ev_failed:
  "jobs (run [''key1'', ''key2''] [upload1, GenerateSettles ''job1'' failedClient]) ''job1'' =
     Some \<lparr>job_id = ''job1'', status = ''error'', transcript = None,
       analysis = None, selectedBooks = JArr [], filePath = Some ''uploads/f1'',
       error = Some ''Transcription failed.'', accessToken = ''tok1''\<rparr>"
  by (simp add: eval_defs upload1_def g3)

lemma ev_failed_later:
  "jobs (run [''key1'', ''key2'']
      ([upload1, GenerateSettles ''job1'' failedClient] @
       [select1, GenerateSettles ''job1'' okClient, AnalysisSettles ''job1'' okEnv])) ''job1'' =
     Some \<lparr>job_id = ''job1'', status = ''error'', transcript = None,
       analysis = None, selectedBooks = JArr [bookX], filePath = Some ''uploads/f1'',
       error = Some ''Transcription failed.'', accessToken = ''tok1''\<rparr>"
  by (simp add: eval_defs upload1_def select1_def g3 bookX_def)

section \<open>The claims\<close>

text \<open>
  Claim C1, which the code does not meet. When the analysis stage runs and every
  credential of the pool fails, the job is to end in status \<open>error\<close> with the message
  \<open>An error occurred during AI analysis.\<close>, without a report, the provider's detail
  being logged only. \<open>getResponse\<close> does not raise when the pool is exhausted: it
  returns an object whose \<open>error\<close> field carries the provider's message, and
  \<open>getAnalysis\<close> stores that object as the report and sets the status to
  \<open>finished\<close>. In the run below both credentials are refused with
  \<open>quota exceeded\<close>; the status request is then answered with status \<open>finished\<close>,
  a report that holds the provider's message, and no error message.
\<close>

theorem exhausted_pool_reported_as_finished:
  "getStatus
     (run [''key1'', ''key2'']
        [PostStart ''job1'' ''tok1'' (Some ''uploads/f1''),
         PostBooksSelection ''job1'' (Some ''Bearer tok1'') (JArr [bookX]),
         GenerateSettles ''job1'' okClient,
         AnalysisSettles ''job1'' failEnv])
     ''job1'' (Some ''Bearer tok1'') =
   Response 200
     (StatusBody (Some ''finished'')
        (Some \<lparr>response = None, error = Some ''Gemini API error: quota exceeded''\<rparr>) None)"
  by (simp add: eval_defs g2 failEnv_def bookX_def)



text \<open>
  Claim C3. In every run, a stored job has a report (its \<open>analysis\<close> field is not
  \<open>null\<close>) exactly when its status is \<open>finished\<close>.
\<close>

theorem report_iff_finished:
  "jobs (run keys es) k = Some j \<Longrightarrow> (analysis j \<noteq> None) = (status j = ''finished'')"
  using inv_run[of keys es k] unfolding jobInv_def by auto

text \<open>Checked on the run that takes a job from its upload to its report.\<close>

theorem report_iff_finished_witness:
  "jobs (run [''key1'', ''key2''] demo) ''job1'' =
     Some \<lparr>job_id = ''job1'', status = ''finished'', transcript = None,
       analysis = Some \<lparr>response = Some ''{}'', error = None\<rparr>,
       selectedBooks = JArr [bookX], filePath = None, error = None, accessToken = ''tok1''\<rparr> \<and>
   (Some \<lparr>response = Some ''{}'', error = None\<rparr> \<noteq> None) = (''finished'' = ''finished'')"
  using report_iff_finished[OF demo_jobs] demo_jobs by simp

text \<open>
  Claim C4, which the code does not meet. A request for a job identifier that is
  unknown is to be answered with not-found, whatever credential it carries; a request
  for a known job is resolved exactly when its credential is the job's secret, and is
  answered with forbidden otherwise. The lemmas \<open>authorize_known\<close> and
  \<open>authorize_unknown\<close> show that \<open>authorizeJob\<close> does this for stored jobs and for
  unknown identifiers that name no member of \<open>Object.prototype\<close>. The store is a
  plain object, though, and finds the inherited members under their names: with no job
  stored at all, a status request for the identifier \<open>constructor\<close> is answered with
  forbidden when it carries no credential or a wrong one, and with 200 and an empty
  object when it carries the credential \<open>Bearer undefined\<close>.
\<close>

theorem authorize_inherited_name:
  "jobs init ''constructor'' = None \<and>
   getStatus init ''constructor'' None =
     Response 403 (ErrorBody ''Forbidden: Invalid access token'') \<and>
   getStatus init ''constructor'' (Some ''Bearer wrong'') =
     Response 403 (ErrorBody ''Forbidden: Invalid access token'') \<and>
   getStatus init ''constructor'' (Some ''Bearer undefined'') =
     Response 200 (StatusBody None None None)"
  by (simp add: eval_defs)

text \<open>
  Claim C5. Once a stored job has status \<open>error\<close>, whatever events follow: each
  adapter has been invoked for the job as often as before, no call of \<open>getAnalysis\<close>
  is suspended for it, its \<open>/start\<close> handler does not await the transcription, and
  the job has status \<open>error\<close> for as long as it is stored.
\<close>

theorem error_is_final:
  assumes "jobs (run keys es) k = Some j" and "status j = ''error''"
  shows "transcribeCalls (run keys (es @ es')) k = transcribeCalls (run keys es) k \<and>
     analysisCalls (run keys (es @ es')) k = analysisCalls (run keys es) k \<and>
     pendingFor (run keys (es @ es')) k = [] \<and>
     (\<forall>p. startPc (run keys (es @ es')) k \<noteq> Some (AtGenerate p)) \<and>
     (\<forall>j'. jobs (run keys (es @ es')) k = Some j' \<longrightarrow> status j' = ''error'')"
proof -
  let ?s = "run keys es" and ?s' = "run keys (es @ es')"
  have I: "jobInv ?s k" and I': "jobInv ?s' k" by (rule inv_run)+
  from I assms(1) have ne: "statusLog ?s k \<noteq> []" unfolding jobInv_def by auto
  with I have pl: "statusLog ?s k \<in> set paths" unfolding jobInv_def by auto
  have pre: "prefix (statusLog ?s k) (statusLog ?s' k)"
    unfolding run_append by (rule log_foldl)
  with ne have ne': "statusLog ?s' k \<noteq> []" by auto
  with I' have pl': "statusLog ?s' k \<in> set paths" unfolding jobInv_def by auto
  from I assms have le: "last (statusLog ?s k) = ''error''" unfolding jobInv_def by auto
  from path_maximal[OF pl pl' pre le] have eq: "statusLog ?s' k = statusLog ?s k" .
  from I I' eq have "transcribeCalls ?s' k = transcribeCalls ?s k"
    "analysisCalls ?s' k = analysisCalls ?s k" unfolding jobInv_def by auto
  moreover from I' eq le have "pendingFor ?s' k = []" unfolding jobInv_def by auto
  moreover from I' eq le have "\<forall>p. startPc ?s' k \<noteq> Some (AtGenerate p)"
    unfolding jobInv_def by auto
  moreover from I' eq le have "\<forall>j'. jobs ?s' k = Some j' \<longrightarrow> status j' = ''error''"
    unfolding jobInv_def by auto
  ultimately show ?thesis by blast
qed

text \<open>
  Checked on a run: the transcription fails; the books, a late answer of the
  transcription provider and an answer of the analysis provider change nothing.
\<close>

theorem error_is_final_witness:
  "jobs (run [''key1'', ''key2''] [upload1, GenerateSettles ''job1'' failedClient]) ''job1'' =
     Some \<lparr>job_id = ''job1'', status = ''error'', transcript = None,
       analysis = None, selectedBooks = JArr [], filePath = Some ''uploads/f1'',
       error = Some ''Transcription failed.'', accessToken = ''tok1''\<rparr> \<and>
   transcribeCalls (run [''key1'', ''key2'']
      ([upload1, GenerateSettles ''job1'' failedClient] @
       [select1, GenerateSettles ''job1'' okClient, AnalysisSettles ''job1'' okEnv])) ''job1'' =
     transcribeCalls (run [''key1'', ''key2''] [upload1, GenerateSettles ''job1'' failedClient]) ''job1'' \<and>
   analysisCalls (run [''key1'', ''key2'']
      ([upload1, GenerateSettles ''job1'' failedClient] @
       [select1, GenerateSettles ''job1'' okClient, AnalysisSettles ''job1'' okEnv])) ''job1'' =
     analysisCalls (run [''key1'', ''key2''] [upload1, GenerateSettles ''job1'' failedClient]) ''job1'' \<and>
   pendingFor (run [''key1'', ''key2'']
      ([upload1, GenerateSettles ''job1'' failedClient] @
       [select1, GenerateSettles ''job1'' okClient, AnalysisSettles ''job1'' okEnv])) ''job1'' = [] \<and>
   map_option status (jobs (run [''key1'', ''key2'']
      ([upload1, GenerateSettles ''job1'' failedClient] @
       [select1, GenerateSettles ''job1'' okClient, AnalysisSettles ''job1'' okEnv])) ''job1'') =
     Some ''error''"
  using error_is_final[OF ev_failed, of "[select1, GenerateSettles ''job1'' okClient, AnalysisSettles ''job1'' okEnv]"]
    ev_failed ev_failed_later by simp

text \<open>
  Claim C6 states that a job is created in a state \<open>created\<close> and moves to
  \<open>transcribing\<close> when the upload is accepted. The code has no such state: the record
  is stored with status \<open>transcribing\<close>.
\<close>

theorem created_state_counterexample:
  "jobs (run [''key1''] [upload1]) ''job1'' = Some (newJob ''job1'' ''uploads/f1'' ''tok1'') \<and>
   status (newJob ''job1'' ''uploads/f1'' ''tok1'') \<noteq> ''created'' \<and>
   statusLog (run [''key1''] [upload1]) ''job1'' = [''transcribing'']"
  by (simp add: eval_defs upload1_def)

text \<open>
  Claim C6 as the code has it. In every run the values written to the status of a job,
  in the order they were written, form one of \<open>paths\<close>: \<open>transcribing\<close>,
  \<open>transcribed\<close>, \<open>analysis_started\<close>, \<open>finished\<close> in this order, cut short at
  any point, or with \<open>error\<close> in place of \<open>transcribed\<close> or of \<open>finished\<close>; no value
  is written twice and none is left out. The status of a stored job is the last value
  written, and the events that follow only add to what was written. A job is created
  with status \<open>transcribing\<close> by the step that answers the upload with 202 and leaves
  the handler awaiting the transcription.
\<close>

theorem status_moves_forward:
  "(statusLog (run keys es) k = [] \<or> statusLog (run keys es) k \<in> set paths) \<and>
   (\<forall>j. jobs (run keys es) k = Some j \<longrightarrow> status j = last (statusLog (run keys es) k)) \<and>
   prefix (statusLog (run keys es) k) (statusLog (run keys (es @ es')) k) \<and>
   snd (postStart s k t (Some p)) = Response 202 (StartBody k t) \<and>
   jobs (fst (postStart s k t (Some p))) k = Some (newJob k p t) \<and>
   status (newJob k p t) = ''transcribing'' \<and>
   startPc (fst (postStart s k t (Some p))) k = Some (AtGenerate p)"
proof (intro conjI)
  have I: "jobInv (run keys es) k" by (rule inv_run)
  then show "statusLog (run keys es) k = [] \<or> statusLog (run keys es) k \<in> set paths"
    unfolding jobInv_def by auto
  from I show "\<forall>j. jobs (run keys es) k = Some j \<longrightarrow> status j = last (statusLog (run keys es) k)"
    unfolding jobInv_def by auto
  show "prefix (statusLog (run keys es) k) (statusLog (run keys (es @ es')) k)"
    unfolding run_append by (rule log_foldl)
qed (simp_all add: postStart_def newJob_def)

text \<open>Checked on the run that takes a job from its upload to its report.\<close>

theorem status_moves_forward_witness:
  "jobs (run [''key1'', ''key2''] demo) ''job1'' =
     Some \<lparr>job_id = ''job1'', status = ''finished'', transcript = None,
       analysis = Some \<lparr>response = Some ''{}'', error = None\<rparr>,
       selectedBooks = JArr [bookX], filePath = None, error = None, accessToken = ''tok1''\<rparr> \<and>
   last (statusLog (run [''key1'', ''key2''] demo) ''job1'') = ''finished'' \<and>
   statusLog (run [''key1'', ''key2''] demo) ''job1'' \<in> set paths"
proof -
  have "statusLog (run [''key1'', ''key2''] demo) ''job1'' \<noteq> []"
    by (simp add: eval_defs demo_def g2 okEnv_def bookX_def)
  with status_moves_forward[of "[''key1'', ''key2'']" demo "''job1''" "[]" init "''tok1''" "''uploads/f1''"]
    demo_jobs
  show ?thesis by simp
qed

text \<open>
  Claim C7. \<open>generate\<close> polls every 7 seconds: the \<open>i\<close>-th poll is logged at
  \<open>7 * (i + 1)\<close> seconds. All its polls but the last are made within \<open>timeoutS\<close>, so
  there are at most \<open>timeoutS div 7 + 1\<close> of them and \<open>generate\<close>, a total function,
  always settles. It fails with a timeout only past \<open>timeoutS\<close> and after polls that
  saw no terminal status, and against a provider that never reports a terminal status it
  does fail with a timeout. The default of \<open>timeoutS\<close> is 900, which allows 129 polls.
  The provider's answers decide which polls are made and what the result is. A rejected
  submission is the result, and nothing is polled. Otherwise there is a first poll \<open>n\<close>
  at which the provider rejects the call, reports a terminal status, or reports another
  status when more than \<open>timeoutS\<close> seconds have been counted. Whenever the polls
  before \<open>n\<close> were answered with a status that is not terminal, within \<open>timeoutS\<close>,
  \<open>generate\<close> has logged exactly the polls the provider answered up to \<open>n\<close>, and its
  result is what poll \<open>n\<close> decides: the rejection of that call; on \<open>transcribed\<close> the
  text of the transcript, or the rejection of its retrieval; on \<open>failed\<close>, \<open>revoked\<close>
  or \<open>error\<close> a failure that carries the status and the provider's reason; on any
  other status past \<open>timeoutS\<close> the timeout. Each call to the provider is taken to
  settle.
\<close>

theorem generate_polls_until_deadline:
  assumes "generate t client path = (ls, r)"
  shows "(\<forall>i<length ls. fst (ls ! i) = 7 * (int i + 1)) \<and>
     (length ls \<le> 1 \<or> 7 * (int (length ls) - 1) \<le> timeoutS t) \<and>
     (\<forall>jobid d. r = Inl (TimedOut jobid d) \<longrightarrow>
        d = timeoutS t \<and> timeoutS t < 7 * int (length ls) \<and> (\<forall>l\<in>set ls. \<not> terminal (snd l))) \<and>
     ((\<exists>jobid. submitJobLocalFile client path = Inr jobid) \<and>
      (\<forall>i. \<exists>d. getJobDetails client i = Inr d \<and> \<not> terminal (revDetails.status d)) \<longrightarrow>
        (\<exists>jobid. r = Inl (TimedOut jobid (timeoutS t)))) \<and>
     timeoutS (Transcript_new None) = 900 \<and>
     (timeoutS t = 900 \<longrightarrow> length ls \<le> 129) \<and>
     (\<forall>e. submitJobLocalFile client path = Inl e \<longrightarrow> ls = [] \<and> r = Inl (Rejected e)) \<and>
     (\<exists>n. (\<forall>i<n. \<exists>d. getJobDetails client i = Inr d \<and> \<not> terminal (revDetails.status d) \<and>
               7 * (int i + 1) \<le> timeoutS t) \<and>
          ((\<exists>e. getJobDetails client n = Inl e) \<or>
           (\<exists>d. getJobDetails client n = Inr d \<and>
                (terminal (revDetails.status d) \<or> timeoutS t < 7 * (int n + 1))))) \<and>
     (\<forall>jobid n. submitJobLocalFile client path = Inr jobid \<and>
        (\<forall>i<n. \<exists>d. getJobDetails client i = Inr d \<and> \<not> terminal (revDetails.status d) \<and>
               7 * (int i + 1) \<le> timeoutS t) \<longrightarrow>
        (\<forall>e. getJobDetails client n = Inl e \<longrightarrow> ls = progress client n \<and> r = Inl (Rejected e)) \<and>
        (\<forall>d. getJobDetails client n = Inr d \<and> revDetails.status d = ''transcribed'' \<longrightarrow>
           ls = progress client (Suc n) \<and>
           r = (case getTranscriptText client of Inl e \<Rightarrow> Inl (Rejected e) | Inr tx \<Rightarrow> Inr tx)) \<and>
        (\<forall>d. getJobDetails client n = Inr d \<and>
             revDetails.status d \<in> set [''failed'', ''revoked'', ''error''] \<longrightarrow>
           ls = progress client (Suc n) \<and> r = Inl (Ended jobid (revDetails.status d) (reason d))) \<and>
        (\<forall>d. getJobDetails client n = Inr d \<and> \<not> terminal (revDetails.status d) \<and>
             timeoutS t < 7 * (int n + 1) \<longrightarrow>
           ls = progress client (Suc n) \<and> r = Inl (TimedOut jobid (timeoutS t))))"
proof -
  have old: "(\<forall>i<length ls. fst (ls ! i) = 7 * (int i + 1)) \<and>
     (length ls \<le> 1 \<or> 7 * (int (length ls) - 1) \<le> timeoutS t) \<and>
     (\<forall>jobid d. r = Inl (TimedOut jobid d) \<longrightarrow>
        d = timeoutS t \<and> timeoutS t < 7 * int (length ls) \<and> (\<forall>l\<in>set ls. \<not> terminal (snd l))) \<and>
     ((\<exists>jobid. submitJobLocalFile client path = Inr jobid) \<and>
      (\<forall>i. \<exists>d. getJobDetails client i = Inr d \<and> \<not> terminal (revDetails.status d)) \<longrightarrow>
        (\<exists>jobid. r = Inl (TimedOut jobid (timeoutS t)))) \<and>
     timeoutS (Transcript_new None) = 900 \<and>
     (timeoutS t = 900 \<longrightarrow> length ls \<le> 129)"
    using generate_bounds[OF assms] .
  have rej: "\<forall>e. submitJobLocalFile client path = Inl e \<longrightarrow> ls = [] \<and> r = Inl (Rejected e)"
    using assms by (auto simp: generate_def)
  have ex: "\<exists>n. (\<forall>i<n. \<exists>d. getJobDetails client i = Inr d \<and> \<not> terminal (revDetails.status d) \<and>
               7 * (int i + 1) \<le> timeoutS t) \<and>
          ((\<exists>e. getJobDetails client n = Inl e) \<or>
           (\<exists>d. getJobDetails client n = Inr d \<and>
                (terminal (revDetails.status d) \<or> timeoutS t < 7 * (int n + 1))))"
    by (rule stopping_poll_exists)
  have fwd: "\<forall>jobid n. submitJobLocalFile client path = Inr jobid \<and>
        (\<forall>i<n. \<exists>d. getJobDetails client i = Inr d \<and> \<not> terminal (revDetails.status d) \<and>
               7 * (int i + 1) \<le> timeoutS t) \<longrightarrow>
        (\<forall>e. getJobDetails client n = Inl e \<longrightarrow> ls = progress client n \<and> r = Inl (Rejected e)) \<and>
        (\<forall>d. getJobDetails client n = Inr d \<and> revDetails.status d = ''transcribed'' \<longrightarrow>
           ls = progress client (Suc n) \<and>
           r = (case getTranscriptText client of Inl e \<Rightarrow> Inl (Rejected e) | Inr tx \<Rightarrow> Inr tx)) \<and>
        (\<forall>d. getJobDetails client n = Inr d \<and>
             revDetails.status d \<in> set [''failed'', ''revoked'', ''error''] \<longrightarrow>
           ls = progress client (Suc n) \<and> r = Inl (Ended jobid (revDetails.status d) (reason d))) \<and>
        (\<forall>d. getJobDetails client n = Inr d \<and> \<not> terminal (revDetails.status d) \<and>
             timeoutS t < 7 * (int n + 1) \<longrightarrow>
           ls = progress client (Suc n) \<and> r = Inl (TimedOut jobid (timeoutS t)))"
  proof (intro allI impI)
    fix jobid n
    assume a: "submitJobLocalFile client path = Inr jobid \<and>
        (\<forall>i<n. \<exists>d. getJobDetails client i = Inr d \<and> \<not> terminal (revDetails.status d) \<and>
               7 * (int i + 1) \<le> timeoutS t)"
    then have s: "submitJobLocalFile client path = Inr jobid"
      and p: "\<forall>i<n. \<exists>d. getJobDetails client i = Inr d \<and> \<not> terminal (revDetails.status d) \<and>
               7 * (int i + 1) \<le> timeoutS t" by blast+
    from generate_forward[OF assms s p]
    show "(\<forall>e. getJobDetails client n = Inl e \<longrightarrow> ls = progress client n \<and> r = Inl (Rejected e)) \<and>
        (\<forall>d. getJobDetails client n = Inr d \<and> revDetails.status d = ''transcribed'' \<longrightarrow>
           ls = progress client (Suc n) \<and>
           r = (case getTranscriptText client of Inl e \<Rightarrow> Inl (Rejected e) | Inr tx \<Rightarrow> Inr tx)) \<and>
        (\<forall>d. getJobDetails client n = Inr d \<and>
             revDetails.status d \<in> set [''failed'', ''revoked'', ''error''] \<longrightarrow>
           ls = progress client (Suc n) \<and> r = Inl (Ended jobid (revDetails.status d) (reason d))) \<and>
        (\<forall>d. getJobDetails client n = Inr d \<and> \<not> terminal (revDetails.status d) \<and>
             timeoutS t < 7 * (int n + 1) \<longrightarrow>
           ls = progress client (Suc n) \<and> r = Inl (TimedOut jobid (timeoutS t)))" .
  qed
  show ?thesis
    apply (rule conjI[OF old[THEN conjunct1]])
    apply (rule conjI[OF old[THEN conjunct2, THEN conjunct1]])
    apply (rule conjI[OF old[THEN conjunct2, THEN conjunct2, THEN conjunct1]])
    apply (rule conjI[OF old[THEN conjunct2, THEN conjunct2, THEN conjunct2, THEN conjunct1]])
    apply (rule conjI[OF old[THEN conjunct2, THEN conjunct2, THEN conjunct2, THEN conjunct2, THEN conjunct1]])
    apply (rule conjI[OF old[THEN conjunct2, THEN conjunct2, THEN conjunct2, THEN conjunct2, THEN conjunct2]])
    apply (rule conjI[OF rej])
    apply (rule conjI[OF ex])
    apply (rule fwd)
    done
qed

text \<open>
  Checked with a limit of 20 seconds on a provider that stays in progress (three polls,
  then the timeout), and with the default limit on a provider that answers
  \<open>transcribed\<close> and on one that answers \<open>failed\<close> at the first poll.
\<close>

theorem generate_polls_until_deadline_witness:
  "generate (Transcript_new (Some 20)) stuckClient ''uploads/f1'' =
     ([(7, ''in_progress''), (14, ''in_progress''), (21, ''in_progress'')], Inl (TimedOut ''rev1'' 20)) \<and>
   fst ([(7, ''in_progress''), (14, ''in_progress''), (21::int, ''in_progress'')] ! 2) = 7 * (int 2 + 1) \<and>
   timeoutS (Transcript_new (Some 20)) < 7 * int 3 \<and>
   7 * (int 3 - 1) \<le> timeoutS (Transcript_new (Some 20)) \<and>
   [(7, ''in_progress''), (14, ''in_progress''), (21, ''in_progress'')] = progress stuckClient 3 \<and>
   fst (generate (Transcript_new None) okClient ''uploads/f1'') = progress okClient 1 \<and>
   snd (generate (Transcript_new None) okClient ''uploads/f1'') = Inr ''bonjour'' \<and>
   fst (generate (Transcript_new None) failedClient ''uploads/f1'') = progress failedClient 1 \<and>
   snd (generate (Transcript_new None) failedClient ''uploads/f1'') =
     Inl (Ended ''rev1'' ''failed'' ''bad audio'')"
proof -
  have s: "submitJobLocalFile stuckClient ''uploads/f1'' = Inr ''rev1'' \<and>
      (\<forall>i<2. \<exists>d. getJobDetails stuckClient i = Inr d \<and> \<not> terminal (revDetails.status d) \<and>
           7 * (int i + 1) \<le> timeoutS (Transcript_new (Some 20)))"
    by (auto simp: stuckClient_def terminal_def Transcript_new_def less_Suc_eq numeral_2_eq_2)
  have s2: "getJobDetails stuckClient 2 =
        Inr \<lparr>revDetails.status = ''in_progress'', failure_detail = None, failure = None\<rparr> \<and>
      \<not> terminal (revDetails.status \<lparr>revDetails.status = ''in_progress'', failure_detail = None, failure = None\<rparr>) \<and>
      timeoutS (Transcript_new (Some 20)) < 7 * (int 2 + 1)"
    by (simp add: stuckClient_def terminal_def Transcript_new_def)
  have A: "[(7, ''in_progress''), (14, ''in_progress''), (21, ''in_progress'')] = progress stuckClient 3"
    using generate_polls_until_deadline[OF g1] s s2 proof -
    have n: "Suc 2 = 3" by simp
    from generate_polls_until_deadline[OF g1] s s2 show ?thesis unfolding n[symmetric] by blast
  qed
  have o: "generate (Transcript_new None) okClient ''uploads/f1'' =
      (fst (generate (Transcript_new None) okClient ''uploads/f1''),
       snd (generate (Transcript_new None) okClient ''uploads/f1''))" by simp
  have o0: "submitJobLocalFile okClient ''uploads/f1'' = Inr ''rev1'' \<and>
      (\<forall>i<0. \<exists>d. getJobDetails okClient i = Inr d \<and> \<not> terminal (revDetails.status d) \<and>
           7 * (int i + 1) \<le> timeoutS (Transcript_new None))"
    by (simp add: okClient_def)
  have o1: "getJobDetails okClient 0 =
        Inr \<lparr>revDetails.status = ''transcribed'', failure_detail = None, failure = None\<rparr> \<and>
      revDetails.status \<lparr>revDetails.status = ''transcribed'', failure_detail = None, failure = None\<rparr> =
        ''transcribed''"
    by (simp add: okClient_def)
  have B: "fst (generate (Transcript_new None) okClient ''uploads/f1'') = progress okClient (Suc 0) \<and>
      snd (generate (Transcript_new None) okClient ''uploads/f1'') =
        (case getTranscriptText okClient of Inl e \<Rightarrow> Inl (Rejected e) | Inr tx \<Rightarrow> Inr tx)"
    using generate_polls_until_deadline[OF o] o0 o1 by blast
  have f: "generate (Transcript_new None) failedClient ''uploads/f1'' =
      (fst (generate (Transcript_new None) failedClient ''uploads/f1''),
       snd (generate (Transcript_new None) failedClient ''uploads/f1''))" by simp
  have f0: "submitJobLocalFile failedClient ''uploads/f1'' = Inr ''rev1'' \<and>
      (\<forall>i<0. \<exists>d. getJobDetails failedClient i = Inr d \<and> \<not> terminal (revDetails.status d) \<and>
           7 * (int i + 1) \<le> timeoutS (Transcript_new None))"
    by (simp add: failedClient_def)
  have f1: "getJobDetails failedClient 0 =
        Inr \<lparr>revDetails.status = ''failed'', failure_detail = Some ''bad audio'', failure = None\<rparr> \<and>
      revDetails.status \<lparr>revDetails.status = ''failed'', failure_detail = Some ''bad audio'', failure = None\<rparr>
        \<in> set [''failed'', ''revoked'', ''error'']"
    by (simp add: failedClient_def)
  have C: "fst (generate (Transcript_new None) failedClient ''uploads/f1'') = progress failedClient (Suc 0) \<and>
      snd (generate (Transcript_new None) failedClient ''uploads/f1'') =
        Inl (Ended ''rev1'' (revDetails.status \<lparr>revDetails.status = ''failed'', failure_detail = Some ''bad audio'', failure = None\<rparr>)
              (reason \<lparr>revDetails.status = ''failed'', failure_detail = Some ''bad audio'', failure = None\<rparr>))"
    using generate_polls_until_deadline[OF f] f0 f1 by blast
  from generate_polls_until_deadline[OF g1] g1 A B C show ?thesis
    by (simp add: okClient_def reason_def truthy_def template_def)
qed

text \<open>
  Claim C8, which the code does not meet. Once the transcription has concluded, with
  any outcome, the uploaded file is to be gone from the disk and the job's \<open>filePath\<close>
  is to be \<open>null\<close>; the comment on the \<open>finally\<close> block of the \<open>/start\<close> handler says
  the same. The handler awaits \<open>tryStartAnalysis\<close> inside its \<open>try\<close> block, so the
  \<open>finally\<close> block is entered only when an analysis that the handler started has
  ended. In the first run below the books are selected before the transcript arrives:
  the transcription has succeeded, the job holds its transcript and is in status
  \<open>analysis_started\<close>, the handler awaits the analysis, and the file is still on the
  disk and still referenced by the job. And when the \<open>unlink\<close> of the \<open>finally\<close>
  block is rejected, the assignment that clears \<open>filePath\<close> is not reached: in the
  second run the provider reports a failure after the file was removed from the disk,
  the handler ends, and the job in status \<open>error\<close> keeps its reference. What the
  code does ensure: when the transcription, the analysis if the handler started one,
  and an \<open>unlink\<close> that finds the file have all settled for a job that was not
  evicted, the file is gone and the reference cleared (\<open>upload_released_progress\<close>);
  and in every run a stored job whose handler has ended holds a reference only if that
  \<open>unlink\<close> was rejected (\<open>released_run\<close>).
\<close>

theorem upload_kept_through_analysis:
  "map_option status
     (jobs (run [''key1''] [upload1, select1, GenerateSettles ''job1'' okClient]) ''job1'') =
     Some ''analysis_started'' \<and>
   map_option transcript
     (jobs (run [''key1''] [upload1, select1, GenerateSettles ''job1'' okClient]) ''job1'') =
     Some (Some ''bonjour'') \<and>
   startPc (run [''key1''] [upload1, select1, GenerateSettles ''job1'' okClient]) ''job1'' =
     Some AtAnalysis \<and>
   ''uploads/f1'' \<in> files (run [''key1''] [upload1, select1, GenerateSettles ''job1'' okClient]) \<and>
   map_option filePath
     (jobs (run [''key1''] [upload1, select1, GenerateSettles ''job1'' okClient]) ''job1'') =
     Some (Some ''uploads/f1'') \<and>
   startPc (run [''key1'']
      [upload1, FileRemoved ''uploads/f1'', GenerateSettles ''job1'' failedClient,
       UnlinkSettles ''job1'']) ''job1'' = Some Done \<and>
   map_option status
     (jobs (run [''key1'']
        [upload1, FileRemoved ''uploads/f1'', GenerateSettles ''job1'' failedClient,
         UnlinkSettles ''job1'']) ''job1'') = Some ''error'' \<and>
   map_option filePath
     (jobs (run [''key1'']
        [upload1, FileRemoved ''uploads/f1'', GenerateSettles ''job1'' failedClient,
         UnlinkSettles ''job1'']) ''job1'') = Some (Some ''uploads/f1'')"
  by (simp add: eval_defs upload1_def select1_def g2 g3 bookX_def)

text \<open>
  Claim C9, which the code does not meet. A failure of the cleanup is to be logged and
  nothing more. In the run below the uploaded file is removed from the disk while the
  transcription runs. The \<open>unlink\<close> of the \<open>finally\<close> block then rejects; the
  rejection is not caught, so it leaves the handler as an unhandled rejection, and the
  assignment that clears \<open>filePath\<close> is not reached (\<open>unlink_rejects\<close> is the
  general fact).
\<close>

theorem failed_unlink_is_unhandled:
  "unhandled
     (run [''key1'']
        [PostStart ''job1'' ''tok1'' (Some ''uploads/f1''),
         FileRemoved ''uploads/f1'',
         GenerateSettles ''job1'' okClient,
         UnlinkSettles ''job1'']) = [(''job1'', ENOENT)] \<and>
   map_option filePath
     (jobs (run [''key1'']
        [PostStart ''job1'' ''tok1'' (Some ''uploads/f1''),
         FileRemoved ''uploads/f1'',
         GenerateSettles ''job1'' okClient,
         UnlinkSettles ''job1'']) ''job1'') = Some (Some ''uploads/f1'')"
  by (simp add: eval_defs g2)

text \<open>
  Claim C10, which the code does not meet. A request to \<open>/booksselection\<close> that
  \<open>authorizeJob\<close> lets through is to be answered with 200 and to replace the job's
  selection with the body's \<open>selectedBooks\<close>; when the body has no such field the
  selection is to become the empty list and no analysis is to start. The store is a
  plain object. With no job stored, the request for the identifier \<open>__proto__\<close> with
  the credential \<open>Bearer undefined\<close> passes \<open>authorizeJob\<close> with \<open>Object.prototype\<close>
  as its job and is answered with 200: the handler's assignment adds the member
  \<open>selectedBooks\<close> to \<open>Object.prototype\<close>, and every parsed body without a field of
  its own inherits it. In the run below a job is then uploaded and transcribed, and the
  request with its token and a body without \<open>selectedBooks\<close> is answered with 200,
  sets the job's selection to the injected list and starts the analysis. The same
  request in the run without the first one leaves the empty list and starts nothing.
  For stored jobs in general (\<open>booksselection_sets_selection\<close>): a request with a
  parsed body is answered with 200; the selection becomes the value the body yields, be
  it an array or not, or the empty list when that value is falsy; and no analysis starts
  unless what was stored is a non-empty array. A body with the field, or any body while
  \<open>Object.prototype\<close> has no member \<open>selectedBooks\<close>, yields its own value
  (\<open>booksselection_own_field\<close>). A request without a parsed body raises before it is
  answered (\<open>booksselection_without_body\<close>).
\<close>

theorem booksselection_reads_injected_selection:
  "jobs (run [''key1''] [PostBooksSelection ''__proto__'' (Some ''Bearer undefined'') (JArr [bookX])])
      ''__proto__'' = None \<and>
   snd (postBooksSelection init ''__proto__'' (Some ''Bearer undefined'') (Some (JArr [bookX]))) =
     Response 200 NoBody \<and>
   injected (run [''key1''] [PostBooksSelection ''__proto__'' (Some ''Bearer undefined'') (JArr [bookX])]) =
     JArr [bookX] \<and>
   map_option selectedBooks
     (jobs (run [''key1'']
        [PostBooksSelection ''__proto__'' (Some ''Bearer undefined'') (JArr [bookX]),
         upload1, GenerateSettles ''job1'' okClient]) ''job1'') = Some (JArr []) \<and>
   snd (postBooksSelection
          (run [''key1'']
             [PostBooksSelection ''__proto__'' (Some ''Bearer undefined'') (JArr [bookX]),
              upload1, GenerateSettles ''job1'' okClient])
          ''job1'' (Some ''Bearer tok1'') (Some JUndefined)) = Response 200 NoBody \<and>
   map_option selectedBooks
     (jobs (run [''key1'']
        [PostBooksSelection ''__proto__'' (Some ''Bearer undefined'') (JArr [bookX]),
         upload1, GenerateSettles ''job1'' okClient,
         PostBooksSelection ''job1'' (Some ''Bearer tok1'') JUndefined]) ''job1'') =
     Some (JArr [bookX]) \<and>
   map_option status
     (jobs (run [''key1'']
        [PostBooksSelection ''__proto__'' (Some ''Bearer undefined'') (JArr [bookX]),
         upload1, GenerateSettles ''job1'' okClient,
         PostBooksSelection ''job1'' (Some ''Bearer tok1'') JUndefined]) ''job1'') =
     Some ''analysis_started'' \<and>
   analysisCalls
     (run [''key1'']
        [PostBooksSelection ''__proto__'' (Some ''Bearer undefined'') (JArr [bookX]),
         upload1, GenerateSettles ''job1'' okClient,
         PostBooksSelection ''job1'' (Some ''Bearer tok1'') JUndefined]) ''job1'' = 1 \<and>
   map_option selectedBooks
     (jobs (run [''key1'']
        [upload1, GenerateSettles ''job1'' okClient,
         PostBooksSelection ''job1'' (Some ''Bearer tok1'') JUndefined]) ''job1'') = Some (JArr []) \<and>
   analysisCalls
     (run [''key1'']
        [upload1, GenerateSettles ''job1'' okClient,
         PostBooksSelection ''job1'' (Some ''Bearer tok1'') JUndefined]) ''job1'' = 0"
  by (simp add: eval_defs upload1_def g2 bookX_def)

end
